theory Spec2Isabelle
  imports Main
begin

section \<open>The page model of gerbi (src/gerbi/models.py)\<close>

text \<open>
  The development embeds the class \<open>Page\<close> and the class \<open>Content\<close> of
  \<open>gerbi/models.py\<close>. Python attributes keep their names; a leading underscore of
  an attribute (\<open>_complete_slug\<close>) is written as the prefix \<open>u_\<close>, and \<open>id\<close> is
  \<open>page_id\<close>. Timestamps are integers (a linear order is all the code uses),
  \<open>None\<close> is \<open>None\<close>, and every exception the code can raise is a value of
  \<open>error\<close>.
\<close>

subsection \<open>Errors, settings, the shared cache\<close>

datatype error =
    ValueError string
  | TypeError
  | AssertionError
  | DoesNotExist

type_synonym timestamp = int
type_synonym language = string

text \<open>The module \<open>gerbi.settings\<close> is read only; its values are a parameter.\<close>

record settings =
  GERBI_SHOW_START_DATE :: bool
  GERBI_SHOW_END_DATE :: bool
  GERBI_HIDE_ROOT_SLUG :: bool
  GERBI_DEFAULT_LANGUAGE :: language
  GERBI_LANGUAGES :: "(language \<times> string) list"
  GERBI_DEFAULT_TEMPLATE :: string

text \<open>
  The keys of django's cache that \<open>Page\<close> uses: \<open>'GERBI_FIRST_ROOT_ID'\<close>,
  \<open>"gerbi_page_%d" % id\<close>, \<open>GERBI_URL_KEY % id\<close> (\<open>"page_%d_url"\<close>) and
  \<open>GERBI_BROKEN_LINK_KEY % id\<close> (\<open>"page_broken_link_%s"\<close>, which also formats
  \<open>None\<close>).
\<close>

datatype key =
    GERBI_FIRST_ROOT_ID
  | gerbi_page int
  | GERBI_URL_KEY int
  | GERBI_BROKEN_LINK_KEY "int option"

type_synonym content_dict = "language \<rightharpoonup> (string \<rightharpoonup> string \<times> timestamp)"
type_synonym slug_dict = "language \<rightharpoonup> string"

datatype cached =
    CachedId int
  | CachedContent content_dict
  | CachedSlugs slug_dict
  | CachedFlag bool

datatype cache_op = Get key | Set key | Delete key

text \<open>
  The shared cache is its store and the list of operations performed on it, most
  recent first, so that "no cache operation happened" can be stated.
\<close>

record backend =
  store :: "key \<rightharpoonup> cached"
  ops :: "cache_op list"

definition cache_get :: "key \<Rightarrow> backend \<Rightarrow> cached option \<times> backend" where
  "cache_get k c = (store c k, c\<lparr>ops := Get k # ops c\<rparr>)"

definition cache_set :: "key \<Rightarrow> cached \<Rightarrow> backend \<Rightarrow> backend" where
  "cache_set k v c = c\<lparr>store := (store c)(k \<mapsto> v), ops := Set k # ops c\<rparr>"

definition cache_delete :: "key \<Rightarrow> backend \<Rightarrow> backend" where
  "cache_delete k c = c\<lparr>store := (store c)(k := None), ops := Delete k # ops c\<rparr>"

subsection \<open>Pages\<close>

record page =
  page_id :: "int option"
  parent :: "int option"
  publication_date :: "timestamp option"
  publication_end_date :: "timestamp option"
  last_modification_date :: "timestamp option"
  status :: "int option"
  template :: "string option"
  freeze_date :: "timestamp option"
  cache :: "content_dict option"
  u_languages :: "language list option"
  u_complete_slug :: "slug_dict option"
  u_is_first_root :: "bool option"

definition DRAFT :: int where "DRAFT = 0"
definition PUBLISHED :: int where "PUBLISHED = 1"
definition EXPIRED :: int where "EXPIRED = 2"
definition HIDDEN :: int where "HIDDEN = 3"

text \<open>\<open>"gerbi_page_%d" % (self.id)\<close> and \<open>GERBI_URL_KEY % (self.id)\<close>: \<open>%d\<close> of \<open>None\<close>
  raises \<open>TypeError\<close>.\<close>

definition fmt_d :: "(int \<Rightarrow> key) \<Rightarrow> int option \<Rightarrow> error + key" where
  "fmt_d k i = (case i of None \<Rightarrow> Inl TypeError | Some n \<Rightarrow> Inr (k n))"

text \<open>\<open>Page.invalidate\<close>. The deletion of the first-root key comes before the
  first key is formatted, so it has happened when the formatting fails.\<close>

definition invalidate :: "page \<Rightarrow> backend \<Rightarrow> (error + page) \<times> backend" where
  "invalidate self c =
     (let c1 = cache_delete GERBI_FIRST_ROOT_ID c in
      case fmt_d gerbi_page (page_id self) of
        Inl e \<Rightarrow> (Inl e, c1)
      | Inr k \<Rightarrow>
          let c2 = cache_delete k c1;
              self1 = self\<lparr>u_languages := None, u_complete_slug := None, cache := None\<rparr>
          in (case fmt_d GERBI_URL_KEY (page_id self1) of
                Inl e \<Rightarrow> (Inl e, c2)
              | Inr u \<Rightarrow> (Inr self1, cache_delete u c2)))"

text \<open>
  \<open>super(Page, self).save()\<close>: the row is written and a page without an id gets
  the next one of the table, \<open>fresh\<close>. (The tree is a parameter of the functions
  that read it, so the write itself does not appear.)
\<close>

definition super_save :: "int \<Rightarrow> page \<Rightarrow> page" where
  "super_save fresh self =
     (case page_id self of None \<Rightarrow> self\<lparr>page_id := Some fresh\<rparr> | Some _ \<Rightarrow> self)"

text \<open>
  \<open>Page.save\<close>, statement by statement. \<open>not self.status\<close> holds of \<open>None\<close>
  and of \<open>0\<close>. \<open>now\<close> is the reading of \<open>datetime.now()\<close> in the
  normalisation of the publication date (lines 132 and 137: at most one of the
  two is executed), \<open>now'\<close> the one of line 141. The many-to-many \<open>sites\<close> of
  lines 147 and 148 is left out.
\<close>

definition default_status :: "page \<Rightarrow> page" where
  "default_status self =
     (if status self = None \<or> status self = Some 0
      then self\<lparr>status := Some DRAFT\<rparr> else self)"

definition stamp_published :: "timestamp \<Rightarrow> page \<Rightarrow> page" where
  "stamp_published now self =
     (if publication_date self = None \<and> status self = Some PUBLISHED
      then self\<lparr>publication_date := Some now\<rparr> else self)"

definition clear_draft :: "settings \<Rightarrow> timestamp \<Rightarrow> page \<Rightarrow> page" where
  "clear_draft cfg now self =
     (if status self = Some DRAFT then
        (if GERBI_SHOW_START_DATE cfg then
           (case publication_date self of
              None \<Rightarrow> self
            | Some d \<Rightarrow> if d \<le> now then self\<lparr>publication_date := None\<rparr> else self)
         else self\<lparr>publication_date := None\<rparr>)
      else self)"

definition Page_save ::
  "settings \<Rightarrow> timestamp \<Rightarrow> timestamp \<Rightarrow> int \<Rightarrow> page \<Rightarrow> backend \<Rightarrow> (error + page) \<times> backend" where
  "Page_save cfg now now' fresh self c =
     (let self1 = default_status self;
          self2 = stamp_published now self1;
          self3 = clear_draft cfg now self2;
          self4 = self3\<lparr>last_modification_date := Some now'\<rparr>;
          c1 = cache_delete (GERBI_BROKEN_LINK_KEY (page_id self4)) c;
          self5 = super_save fresh self4
      in invalidate self5 c1)"

text \<open>\<open>Page._get_calculated_status\<close>; \<open>now\<close> and \<open>now'\<close> are the readings of
  \<open>datetime.now()\<close> of lines 156 and 160. A \<open>datetime\<close> is always true, so
  \<open>self.publication_date\<close> as a condition is "not \<open>None\<close>".\<close>

definition get_calculated_status ::
  "settings \<Rightarrow> timestamp \<Rightarrow> timestamp \<Rightarrow> page \<Rightarrow> int option" where
  "get_calculated_status cfg now now' self =
     (let by_end = (case publication_end_date self of
                      Some e \<Rightarrow> if GERBI_SHOW_END_DATE cfg \<and> e < now' then Some EXPIRED
                                else status self
                    | None \<Rightarrow> status self)
      in case publication_date self of
           Some d \<Rightarrow> if GERBI_SHOW_START_DATE cfg \<and> d > now then Some DRAFT else by_end
         | None \<Rightarrow> by_end)"

definition visible :: "settings \<Rightarrow> timestamp \<Rightarrow> timestamp \<Rightarrow> page \<Rightarrow> bool" where
  "visible cfg now now' self =
     (get_calculated_status cfg now now' self \<in> {Some PUBLISHED, Some HIDDEN})"

subsection \<open>Content revisions\<close>

record content =
  content_language :: language
  content_body :: string
  content_type :: string
  content_page :: page
  creation_date :: timestamp

text \<open>\<open>Content.save\<close>: the owning page is invalidated, then the row is written.\<close>

definition Content_save :: "content \<Rightarrow> backend \<Rightarrow> (error + content) \<times> backend" where
  "Content_save self c =
     (case invalidate (content_page self) c of
        (Inl e, c1) \<Rightarrow> (Inl e, c1)
      | (Inr p, c1) \<Rightarrow> (Inr (self\<lparr>content_page := p\<rparr>), c1))"

subsection \<open>The tree index\<close>

text \<open>
  \<open>Page\<close> is an \<open>MPTTModel\<close>: the rows form a forest, the trees in the order of
  \<open>tree_id\<close> and the children of a node in the order of \<open>lft\<close>. The forest is a
  parameter of every function that queries it. A node is found by its id; its
  location is the list of its ancestors, nearest first, the siblings before it,
  nearest first, its subtree, and the siblings after it. The roots of the forest
  are siblings of each other, as in MPTT, whose \<open>get_next_sibling\<close> of a root
  node is the root of the next tree (the comment of line 495 relies on it).
\<close>

datatype tree = Node (root: page) (subtrees: "tree list")

type_synonym forest = "tree list"
type_synonym location = "page list \<times> tree list \<times> tree \<times> tree list"

function locate :: "int \<Rightarrow> page list \<Rightarrow> tree list \<Rightarrow> tree list \<Rightarrow> location option" where
  "locate i anc ls [] = None"
| "locate i anc ls (Node p cs # rs) =
     (if page_id p = Some i then Some (anc, ls, Node p cs, rs)
      else case locate i (p # anc) [] cs of
             Some l \<Rightarrow> Some l
           | None \<Rightarrow> locate i anc (Node p cs # ls) rs)"
  by pat_completeness auto
termination
  by (relation "measure (\<lambda>(i, anc, ls, ts). size_list size ts)") auto

fun preorder :: "tree \<Rightarrow> page list"
  and preorders :: "tree list \<Rightarrow> page list" where
  "preorder (Node p cs) = p # preorders cs"
| "preorders [] = []"
| "preorders (t # ts) = preorder t @ preorders ts"

text \<open>
  The queries of \<open>MPTTModel\<close>, which \<open>Page\<close> overrides only to re-type their
  results (lines 549 to 622): the ancestors, nearest first when \<open>ascending\<close>; the
  children and the descendants in tree order; the next and the previous sibling,
  among the children of the parent or, for a root, among the roots. A page that
  is not in the forest has none of them.
\<close>

definition position :: "forest \<Rightarrow> page \<Rightarrow> location option" where
  "position f self = (case page_id self of None \<Rightarrow> None | Some i \<Rightarrow> locate i [] [] f)"

definition get_ancestors :: "forest \<Rightarrow> page \<Rightarrow> bool \<Rightarrow> page list" where
  "get_ancestors f self ascending =
     (case position f self of
        None \<Rightarrow> []
      | Some (anc, ls, t, rs) \<Rightarrow> if ascending then anc else rev anc)"

definition get_children :: "forest \<Rightarrow> page \<Rightarrow> page list" where
  "get_children f self =
     (case position f self of
        None \<Rightarrow> []
      | Some (anc, ls, t, rs) \<Rightarrow> map root (subtrees t))"

definition get_descendants :: "forest \<Rightarrow> page \<Rightarrow> page list" where
  "get_descendants f self =
     (case position f self of
        None \<Rightarrow> []
      | Some (anc, ls, t, rs) \<Rightarrow> preorders (subtrees t))"

definition get_next_sibling :: "forest \<Rightarrow> page \<Rightarrow> page option" where
  "get_next_sibling f self =
     (case position f self of
        Some (anc, ls, t, r # rs) \<Rightarrow> Some (root r)
      | _ \<Rightarrow> None)"

definition get_previous_sibling :: "forest \<Rightarrow> page \<Rightarrow> page option" where
  "get_previous_sibling f self =
     (case position f self of
        Some (anc, l # ls, t, rs) \<Rightarrow> Some (root l)
      | _ \<Rightarrow> None)"

text \<open>\<open>get_root\<close>: the page itself when it is a root, the farthest ancestor
  otherwise.\<close>

definition get_root :: "forest \<Rightarrow> page \<Rightarrow> page option" where
  "get_root f self =
     (case position f self of
        None \<Rightarrow> None
      | Some (anc, ls, t, rs) \<Rightarrow> Some (if anc = [] then root t else last anc))"

definition is_root_node :: "page \<Rightarrow> bool" where
  "is_root_node self = (parent self = None)"

text \<open>\<open>Page.objects.get(id=i)\<close>.\<close>

definition objects_get :: "forest \<Rightarrow> int \<Rightarrow> error + page" where
  "objects_get f i =
     (case locate i [] [] f of
        None \<Rightarrow> Inl DoesNotExist
      | Some (anc, ls, t, rs) \<Rightarrow> Inr (root t))"

text \<open>Modelled from the spec: \<open>PageManager.root\<close> (gerbi/managers.py, not part of
  the sources at hand), the top-level pages in the root ordering of the tree
  index.\<close>

definition objects_root :: "forest \<Rightarrow> page list" where
  "objects_root f = map root f"

text \<open>A slice \<open>qs[start:stop]\<close> of a django \<open>QuerySet\<close>: negative bounds are
  refused ("Negative indexing is not supported.").\<close>

definition qs_slice :: "'a list \<Rightarrow> int \<Rightarrow> int \<Rightarrow> error + 'a list" where
  "qs_slice qs start stop =
     (if start < 0 \<or> stop < 0 then Inl AssertionError
      else Inr (take (nat stop - nat start) (drop (nat start) qs)))"

subsection \<open>Forests as the tree index keeps them\<close>

text \<open>
  All the locations of a forest, in document order. \<open>locate\<close> returns the first
  of them whose page has the id looked for.
\<close>

function locs :: "page list \<Rightarrow> tree list \<Rightarrow> tree list \<Rightarrow> location list" where
  "locs anc ls [] = []"
| "locs anc ls (Node p cs # rs) =
     (anc, ls, Node p cs, rs) # locs (p # anc) [] cs @ locs anc (Node p cs # ls) rs"
  by pat_completeness auto
termination
  by (relation "measure (\<lambda>(anc, ls, ts). size_list size ts)") auto

definition node_of :: "location \<Rightarrow> page" where
  "node_of l = (case l of (anc, ls, t, rs) \<Rightarrow> root t)"

text \<open>A row at a location has an id, and its \<open>parent\<close> is the id of its nearest
  ancestor, \<open>None\<close> for a root.\<close>

definition placed :: "location \<Rightarrow> bool" where
  "placed l =
     (case l of (anc, ls, t, rs) \<Rightarrow>
        page_id (root t) \<noteq> None
        \<and> parent (root t) = (case anc of [] \<Rightarrow> None | a # _ \<Rightarrow> page_id a))"

text \<open>The forest of a database: the ids are a key, and the foreign key \<open>parent\<close>
  agrees with the tree.\<close>

definition consistent :: "forest \<Rightarrow> bool" where
  "consistent f =
     (distinct (map page_id (preorders f)) \<and> list_all placed (locs [] [] f))"

subsection \<open>First root, templates, complete slugs\<close>

text \<open>\<open>Page.is_first_root\<close>. \<open>first_root_id == self.id\<close> compares whatever the cache
  holds with the id; \<open>self.id == first_root_id\<close> is true of two \<open>None\<close>.\<close>

definition is_first_root :: "forest \<Rightarrow> page \<Rightarrow> backend \<Rightarrow> bool \<times> page \<times> backend" where
  "is_first_root f self c =
     (if parent self \<noteq> None then (False, self, c)
      else case u_is_first_root self of
        Some b \<Rightarrow> (b, self, c)
      | None \<Rightarrow>
          (case cache_get GERBI_FIRST_ROOT_ID c of
             (Some v, c1) \<Rightarrow>
               let b = (case page_id self of None \<Rightarrow> False | Some i \<Rightarrow> v = CachedId i)
               in (b, self\<lparr>u_is_first_root := Some b\<rparr>, c1)
           | (None, c1) \<Rightarrow>
               let first_root_id = (case objects_root f of [] \<Rightarrow> None | r # _ \<Rightarrow> page_id r);
                   c2 = (case first_root_id of
                           None \<Rightarrow> c1
                         | Some i \<Rightarrow> cache_set GERBI_FIRST_ROOT_ID (CachedId i) c1);
                   b = (page_id self = first_root_id)
               in (b, self\<lparr>u_is_first_root := Some b\<rparr>, c2)))"

text \<open>The truth value of a nullable string: neither \<open>None\<close> nor empty.\<close>

definition truthy :: "string option \<Rightarrow> bool" where
  "truthy s = (case s of None \<Rightarrow> False | Some t \<Rightarrow> t \<noteq> [])"

text \<open>The loop of \<open>Page.get_template\<close> over the ancestors, with its \<open>break\<close>.\<close>

fun closest_template :: "page list \<Rightarrow> string option" where
  "closest_template [] = None"
| "closest_template (p # ps) =
     (if truthy (template p) then template p else closest_template ps)"

definition get_template :: "settings \<Rightarrow> forest \<Rightarrow> page \<Rightarrow> string" where
  "get_template cfg f self =
     (let inherited =
            (case closest_template (get_ancestors f self True) of
               Some t' \<Rightarrow> if t' \<noteq> [] then t' else GERBI_DEFAULT_TEMPLATE cfg
             | None \<Rightarrow> GERBI_DEFAULT_TEMPLATE cfg)
      in case template self of
           Some t \<Rightarrow> if t \<noteq> [] then t else inherited
         | None \<Rightarrow> inherited)"

text \<open>\<open>if not language: language = settings.GERBI_DEFAULT_LANGUAGE\<close>.\<close>

definition or_default :: "settings \<Rightarrow> language option \<Rightarrow> language" where
  "or_default cfg lang =
     (case lang of None \<Rightarrow> GERBI_DEFAULT_LANGUAGE cfg
      | Some l \<Rightarrow> if l = [] then GERBI_DEFAULT_LANGUAGE cfg else l)"

text \<open>\<open>self._complete_slug and language in self._complete_slug\<close>, and the entry.\<close>

definition memoized :: "slug_dict option \<Rightarrow> language \<Rightarrow> string option" where
  "memoized memo lang =
     (case memo of None \<Rightarrow> None
      | Some m \<Rightarrow> if m \<noteq> Map.empty then m lang else None)"

text \<open>What \<open>cache.get\<close> returned, used as the dictionary of slugs: a value of
  another kind cannot be used so (\<open>TypeError\<close>).\<close>

definition as_slugs :: "cached option \<Rightarrow> error + slug_dict option" where
  "as_slugs v =
     (case v of None \<Rightarrow> Inr None
      | Some (CachedSlugs m) \<Rightarrow> Inr (Some m)
      | Some _ \<Rightarrow> Inl TypeError)"

text \<open>The loop of \<open>get_complete_slug\<close>:
  \<open>url = ancestor.slug(language) + u'/' + url\<close>.\<close>

definition prepend_slugs ::
  "(int option \<Rightarrow> language \<Rightarrow> string) \<Rightarrow> language \<Rightarrow> string \<Rightarrow> page list \<Rightarrow> string" where
  "prepend_slugs slug lang url ancestors =
     foldl (\<lambda>url ancestor. slug (page_id ancestor) lang @ ''/'' @ url) url ancestors"

text \<open>
  \<open>Page.get_complete_slug\<close>. \<open>slug\<close> is \<open>Page.slug\<close>, which delegates to
  \<open>ContentManager.get_content\<close> (gerbi/managers.py): the slug of the page of
  an id in a language is a parameter here.
  The result is the value or the exception, the instance with its memo fields,
  and the shared cache. \<open>compute_complete_slug\<close> is the part after the two
  look-ups (lines 276 to 285), with \<open>m\<close> the dictionary \<open>self._complete_slug\<close>
  and \<open>k\<close> the key of the page.
\<close>

definition compute_complete_slug ::
  "settings \<Rightarrow> forest \<Rightarrow> (int option \<Rightarrow> language \<Rightarrow> string) \<Rightarrow> page \<Rightarrow> language \<Rightarrow> bool
     \<Rightarrow> key \<Rightarrow> slug_dict \<Rightarrow> backend \<Rightarrow> (error + string) \<times> page \<times> backend" where
  "compute_complete_slug cfg f slug self lang hideroot k m c =
     (case (if hideroot \<and> GERBI_HIDE_ROOT_SLUG cfg
            then is_first_root f self c else (False, self, c)) of
        (hide, self1, c1) \<Rightarrow>
          (let url0 = (if hide then [] else slug (page_id self1) lang);
               url = prepend_slugs slug lang url0 (get_ancestors f self1 True);
               m' = m(lang \<mapsto> url)
           in (Inr url, self1\<lparr>u_complete_slug := Some m'\<rparr>,
               cache_set k (CachedSlugs m') c1)))"

definition get_complete_slug ::
  "settings \<Rightarrow> forest \<Rightarrow> (int option \<Rightarrow> language \<Rightarrow> string) \<Rightarrow> page \<Rightarrow> language option \<Rightarrow> bool
     \<Rightarrow> backend \<Rightarrow> (error + string) \<times> page \<times> backend" where
  "get_complete_slug cfg f slug self language hideroot c =
     (let lang = or_default cfg language in
      case memoized (u_complete_slug self) lang of
        Some url \<Rightarrow> (Inr url, self, c)
      | None \<Rightarrow>
         (case fmt_d GERBI_URL_KEY (page_id self) of
            Inl e \<Rightarrow> (Inl e, self, c)
          | Inr k \<Rightarrow>
             (case cache_get k c of (v, c1) \<Rightarrow>
               (case as_slugs v of
                  Inl e \<Rightarrow> (Inl e, self, c1)
                | Inr None \<Rightarrow>
                    compute_complete_slug cfg f slug
                      (self\<lparr>u_complete_slug := Some Map.empty\<rparr>) lang hideroot k Map.empty c1
                | Inr (Some m) \<Rightarrow>
                    (case m lang of
                       Some url \<Rightarrow> (Inr url, self\<lparr>u_complete_slug := Some m\<rparr>, c1)
                     | None \<Rightarrow>
                         compute_complete_slug cfg f slug
                           (self\<lparr>u_complete_slug := Some m\<rparr>) lang hideroot k m c1)))))"

subsection \<open>Book traversal\<close>

text \<open>The loop of \<open>get_next_in_book\<close> over the ancestors.\<close>

fun first_next_sibling :: "forest \<Rightarrow> page list \<Rightarrow> page option" where
  "first_next_sibling f [] = None"
| "first_next_sibling f (par # anc) =
     (case get_next_sibling f par of
        Some nxt \<Rightarrow> Some nxt
      | None \<Rightarrow> first_next_sibling f anc)"

definition get_next_in_book :: "forest \<Rightarrow> page \<Rightarrow> error + page option" where
  "get_next_in_book f self =
     (case get_children f self of
        c # _ \<Rightarrow> Inr (Some c)
      | [] \<Rightarrow>
         (case get_next_sibling f self of
            Some s \<Rightarrow> Inr (Some s)
          | None \<Rightarrow>
             (let cnt = int (length (get_ancestors f self True)) in
              case qs_slice (get_ancestors f self True) 0 (cnt - 1) of
                Inl e \<Rightarrow> Inl e
              | Inr anc \<Rightarrow> Inr (first_next_sibling f anc))))"

definition get_prev_in_book :: "forest \<Rightarrow> page \<Rightarrow> error + page option" where
  "get_prev_in_book f self =
     (if \<not> is_root_node self then
        (case get_previous_sibling f self of
           Some sib \<Rightarrow>
             (let dsc = get_descendants f sib; cnt = length dsc in
              if 0 = length dsc then Inr (Some sib) else Inr (Some (dsc ! (cnt - 1))))
         | None \<Rightarrow>
             (case parent self of
                None \<Rightarrow> Inr None
              | Some i \<Rightarrow>
                 (case objects_get f i of Inl e \<Rightarrow> Inl e | Inr p \<Rightarrow> Inr (Some p))))
      else Inr None)"

subsection \<open>The content cache of a page\<close>

text \<open>The rows of \<open>Content.objects.filter(language=lang, page=self)\<close>, with
  \<open>creation_date__lte=self.freeze_date\<close> when the page has a freeze date.\<close>

definition revisions :: "content list \<Rightarrow> page \<Rightarrow> language \<Rightarrow> content list" where
  "revisions rows self lang =
     filter (\<lambda>r. content_language r = lang
                \<and> page_id (content_page r) = page_id self
                \<and> (case freeze_date self of None \<Rightarrow> True | Some d \<Rightarrow> creation_date r \<le> d))
       rows"

fun latest :: "content list \<Rightarrow> content option" where
  "latest [] = None"
| "latest (r # rs) =
     (case latest rs of
        None \<Rightarrow> Some r
      | Some r' \<Rightarrow> if creation_date r < creation_date r' then Some r' else Some r)"

text \<open>Modelled from the spec: \<open>ContentManager.get_content_object\<close>
  (gerbi/managers.py, not part of the sources at hand): the revision of the
  page, language and type with the greatest creation timestamp not after the
  freeze date of the page, when it has one; \<open>Content.DoesNotExist\<close> without
  one.\<close>

definition get_content_object ::
  "content list \<Rightarrow> page \<Rightarrow> language \<Rightarrow> string \<Rightarrow> error + content" where
  "get_content_object rows self lang ty =
     (case latest (filter (\<lambda>r. content_type r = ty) (revisions rows self lang)) of
        None \<Rightarrow> Inl DoesNotExist
      | Some r \<Rightarrow> Inr r)"

text \<open>The inner loop of \<open>build_cache\<close>: the types of the language, each with the
  body and date of its current revision.\<close>

definition fill_language ::
  "content list \<Rightarrow> page \<Rightarrow> language \<Rightarrow> (string \<rightharpoonup> string \<times> timestamp)" where
  "fill_language rows self lang =
     foldl (\<lambda>d ty. case get_content_object rows self lang ty of
                      Inl e \<Rightarrow> d
                    | Inr r \<Rightarrow> d(ty \<mapsto> (content_body r, creation_date r)))
       Map.empty (remdups (map content_type (revisions rows self lang)))"

definition as_content :: "cached option \<Rightarrow> error + content_dict option" where
  "as_content v =
     (case v of None \<Rightarrow> Inr None
      | Some (CachedContent d) \<Rightarrow> Inr (Some d)
      | Some _ \<Rightarrow> Inl TypeError)"

text \<open>\<open>Page.build_cache\<close>; \<open>rows\<close> is the table of the content revisions.
  \<open>not self.id\<close> holds of \<open>None\<close> and of \<open>0\<close>.\<close>

definition fill_cache ::
  "settings \<Rightarrow> content list \<Rightarrow> page \<Rightarrow> language option \<Rightarrow> key \<Rightarrow> content_dict \<Rightarrow> backend
     \<Rightarrow> (error + content_dict) \<times> page \<times> backend" where
  "fill_cache cfg rows self lang k d c =
     (let languages = (case lang of
                         None \<Rightarrow> map fst (GERBI_LANGUAGES cfg)
                       | Some l \<Rightarrow> if l \<noteq> [] then [l] else map fst (GERBI_LANGUAGES cfg));
          needed_languages = filter (\<lambda>l. d l = None) languages;
          d' = foldl (\<lambda>d l. d(l \<mapsto> fill_language rows self l)) d needed_languages;
          c' = (if 0 < length needed_languages then cache_set k (CachedContent d') c else c)
      in (Inr d', self\<lparr>cache := Some d'\<rparr>, c'))"

definition build_cache ::
  "settings \<Rightarrow> content list \<Rightarrow> page \<Rightarrow> language option \<Rightarrow> backend
     \<Rightarrow> (error + content_dict) \<times> page \<times> backend" where
  "build_cache cfg rows self lang c =
     (case page_id self of
        None \<Rightarrow> (Inl (ValueError ''Page have no id''), self, c)
      | Some i \<Rightarrow>
          if i = 0 then (Inl (ValueError ''Page have no id''), self, c)
          else
            (let k = gerbi_page i in
             case (case cache self of
                     Some d \<Rightarrow> if d \<noteq> Map.empty then (Inr (Some d), c)
                               else (case cache_get k c of (v, c1) \<Rightarrow> (as_content v, c1))
                   | None \<Rightarrow> (case cache_get k c of (v, c1) \<Rightarrow> (as_content v, c1))) of
               (Inl e, c1) \<Rightarrow> (Inl e, self, c1)
             | (Inr None, c1) \<Rightarrow> fill_cache cfg rows self lang k Map.empty c1
             | (Inr (Some d), c1) \<Rightarrow> fill_cache cfg rows self lang k d c1))"

subsection \<open>Example data\<close>

text \<open>\<open>Page.__init__\<close> on no arguments: the fields at their defaults, the memo
  fields \<open>None\<close>.\<close>

definition Page_init :: page where
  "Page_init =
     \<lparr>page_id = None, parent = None, publication_date = None,
      publication_end_date = None, last_modification_date = None,
      status = Some DRAFT, template = None, freeze_date = None, cache = None,
      u_languages = None, u_complete_slug = None, u_is_first_root = None\<rparr>"

definition no_cache :: backend where
  "no_cache = \<lparr>store = Map.empty, ops = []\<rparr>"

definition site_settings :: "bool \<Rightarrow> settings" where
  "site_settings hide =
     \<lparr>GERBI_SHOW_START_DATE = True, GERBI_SHOW_END_DATE = True,
      GERBI_HIDE_ROOT_SLUG = hide, GERBI_DEFAULT_LANGUAGE = ''en'',
      GERBI_LANGUAGES = [(''en'', ''English''), (''fr'', ''French'')],
      GERBI_DEFAULT_TEMPLATE = ''index.html''\<rparr>"

text \<open>The tree of the scenario: root R, its child A, and B under A. N is a
  page with neither parent nor children, the root of a tree of its own.\<close>

definition page_R :: page where
  "page_R = Page_init\<lparr>page_id := Some 1, status := Some PUBLISHED\<rparr>"

definition page_A :: page where
  "page_A = Page_init\<lparr>page_id := Some 2, parent := Some 1, template := Some ''wide.html''\<rparr>"

definition page_B :: page where
  "page_B = Page_init\<lparr>page_id := Some 3, parent := Some 2\<rparr>"

definition page_N :: page where
  "page_N = Page_init\<lparr>page_id := Some 4\<rparr>"

definition site :: forest where
  "site = [Node page_R [Node page_A [Node page_B []]]]"

definition site_after_N :: forest where
  "site_after_N = Node page_N [] # site"

definition site_before_N :: forest where
  "site_before_N = site @ [Node page_N []]"

text \<open>The slugs of the four pages, in French and in every other language.\<close>

definition site_slug :: "int option \<Rightarrow> language \<Rightarrow> string" where
  "site_slug i lang =
     (if lang = ''fr'' then
        (if i = Some 1 then ''accueil'' else if i = Some 2 then ''a-propos''
         else if i = Some 3 then ''equipe'' else ''nouvelles'')
      else
        (if i = Some 1 then ''home'' else if i = Some 2 then ''about''
         else if i = Some 3 then ''team'' else ''news''))"

text \<open>A revision of the slug of B, and a cache in which the link checker has
  flagged B.\<close>

definition revision_B :: content where
  "revision_B =
     \<lparr>content_language = ''en'', content_body = ''team'', content_type = ''slug'',
      content_page = page_B, creation_date = 5\<rparr>"

definition flagged_cache :: backend where
  "flagged_cache = cache_set (GERBI_BROKEN_LINK_KEY (Some 3)) (CachedFlag True) no_cache"

text \<open>An instance of B that has answered requests, with its memo fields filled,
  and a shared cache that holds the first root, the content and the paths of B,
  the flag of B, and the path of A.\<close>

definition visited_B :: page where
  "visited_B =
     page_B\<lparr>cache := Some [''en'' \<mapsto> Map.empty], u_languages := Some [''en''],
            u_complete_slug := Some [''en'' \<mapsto> ''home/about/team'']\<rparr>"

definition busy_cache :: backend where
  "busy_cache =
     cache_set (GERBI_URL_KEY 2) (CachedSlugs [''en'' \<mapsto> ''home/about''])
       (cache_set (GERBI_URL_KEY 3) (CachedSlugs [''en'' \<mapsto> ''home/about/team''])
          (cache_set (gerbi_page 3) (CachedContent [''en'' \<mapsto> Map.empty])
             (cache_set GERBI_FIRST_ROOT_ID (CachedId 1) flagged_cache)))"

section \<open>Properties\<close>

subsection \<open>The example site\<close>

lemma page_fields:
  "page_id page_R = Some 1" "page_id page_A = Some 2" "page_id page_B = Some 3"
  "page_id page_N = Some 4"
  "parent page_R = None" "parent page_A = Some 1" "parent page_B = Some 2"
  "parent page_N = None"
  "u_complete_slug page_R = None" "u_complete_slug page_B = None"
  "u_complete_slug page_N = None"
  "u_is_first_root page_R = None" "u_is_first_root page_N = None"
  by (simp_all add: page_R_def page_A_def page_B_def page_N_def Page_init_def)

lemma templates:
  "template page_R = None" "template page_A = Some ''wide.html''" "template page_B = None"
  by (simp_all add: page_R_def page_A_def page_B_def Page_init_def)

lemma store_no_cache: "store no_cache k = None"
  by (simp add: no_cache_def)

lemma site_settings_fields:
  "GERBI_HIDE_ROOT_SLUG (site_settings hide) = hide"
  "GERBI_DEFAULT_LANGUAGE (site_settings hide) = ''en''"
  "or_default (site_settings hide) None = ''en''"
  by (simp_all add: site_settings_def or_default_def)

lemma revision_B_page: "page_id (content_page revision_B) = Some 3"
  by (simp add: revision_B_def page_fields)

lemma flagged_cache_store:
  "store flagged_cache (GERBI_BROKEN_LINK_KEY (Some 3)) = Some (CachedFlag True)"
  by (simp add: flagged_cache_def cache_set_def)

lemma visited_B_fields:
  "page_id visited_B = Some 3" "parent visited_B = Some 2"
  "u_complete_slug visited_B = Some [''en'' \<mapsto> ''home/about/team'']"
  "u_languages visited_B = Some [''en'']" "cache visited_B = Some [''en'' \<mapsto> Map.empty]"
  by (simp_all add: visited_B_def page_fields)

lemma busy_cache_store:
  "store busy_cache GERBI_FIRST_ROOT_ID = Some (CachedId 1)"
  "store busy_cache (gerbi_page 3) = Some (CachedContent [''en'' \<mapsto> Map.empty])"
  "store busy_cache (GERBI_URL_KEY 3) = Some (CachedSlugs [''en'' \<mapsto> ''home/about/team''])"
  "store busy_cache (GERBI_URL_KEY 2) = Some (CachedSlugs [''en'' \<mapsto> ''home/about''])"
  "store busy_cache (GERBI_BROKEN_LINK_KEY (Some 3)) = Some (CachedFlag True)"
  by (simp_all add: busy_cache_def flagged_cache_def cache_set_def)

lemma first_of_site:
  "(case site of [] \<Rightarrow> False | t # _ \<Rightarrow> page_id (root t) = Some i) = (i = 1)"
  "(case site_before_N of [] \<Rightarrow> False | t # _ \<Rightarrow> page_id (root t) = Some i) = (i = 1)"
  by (auto simp add: site_before_N_def site_def page_fields)

lemma page_R_neq_N: "page_R \<noteq> page_N"
proof
  assume "page_R = page_N"
  then have "page_id page_R = page_id page_N" by simp
  then show False by (simp add: page_fields)
qed

subsection \<open>Saving and invalidation\<close>

lemma invalidate_Some:
  "page_id self = Some i \<Longrightarrow>
   invalidate self c =
     (Inr (self\<lparr>u_languages := None, u_complete_slug := None, cache := None\<rparr>),
      cache_delete (GERBI_URL_KEY i) (cache_delete (gerbi_page i) (cache_delete GERBI_FIRST_ROOT_ID c)))"
  by (simp add: invalidate_def fmt_d_def Let_def)

lemma super_save_id:
  "page_id (super_save fresh self) = Some (case page_id self of None \<Rightarrow> fresh | Some i \<Rightarrow> i)"
  by (simp add: super_save_def split: option.splits)

lemma super_save_fields:
  "status (super_save fresh self) = status self"
  "publication_date (super_save fresh self) = publication_date self"
  "last_modification_date (super_save fresh self) = last_modification_date self"
  "parent (super_save fresh self) = parent self"
  "template (super_save fresh self) = template self"
  by (simp_all add: super_save_def split: option.splits)

lemma default_status_fields:
  "page_id (default_status self) = page_id self"
  "publication_date (default_status self) = publication_date self"
  "status (default_status self) =
     (if status self = None \<or> status self = Some DRAFT then Some DRAFT else status self)"
  by (simp_all add: default_status_def DRAFT_def)

lemma stamp_published_fields:
  "page_id (stamp_published now self) = page_id self"
  "status (stamp_published now self) = status self"
  "publication_date (stamp_published now self) =
     (if publication_date self = None \<and> status self = Some PUBLISHED then Some now
      else publication_date self)"
  by (simp_all add: stamp_published_def)

lemma clear_draft_fields:
  "page_id (clear_draft cfg now self) = page_id self"
  "status (clear_draft cfg now self) = status self"
  "publication_date (clear_draft cfg now self) =
     (if status self = Some DRAFT
         \<and> (GERBI_SHOW_START_DATE cfg \<longrightarrow> (\<exists>d. publication_date self = Some d \<and> d \<le> now))
      then None else publication_date self)"
  by (auto simp add: clear_draft_def split: option.splits)

lemma store_cache_delete: "store (cache_delete k c) = (store c)(k := None)"
  by (simp add: cache_delete_def)

lemma ops_cache_delete: "ops (cache_delete k c) = Delete k # ops c"
  by (simp add: cache_delete_def)

lemma Page_save_unfold:
  "Page_save cfg now now' fresh self c =
     (Inr (super_save fresh
             (clear_draft cfg now (stamp_published now (default_status self))
                \<lparr>last_modification_date := Some now'\<rparr>)
           \<lparr>u_languages := None, u_complete_slug := None, cache := None\<rparr>),
      cache_delete (GERBI_URL_KEY (case page_id self of None \<Rightarrow> fresh | Some j \<Rightarrow> j))
        (cache_delete (gerbi_page (case page_id self of None \<Rightarrow> fresh | Some j \<Rightarrow> j))
           (cache_delete GERBI_FIRST_ROOT_ID
              (cache_delete (GERBI_BROKEN_LINK_KEY (page_id self)) c))))"
  unfolding Page_save_def Let_def
  by (subst invalidate_Some [OF super_save_id])
     (simp add: default_status_fields stamp_published_fields clear_draft_fields)

text \<open>
  C5. \<open>Page.save\<close> always succeeds and normalises the page: an unset status
  becomes Draft; a Published page without a publication date gets the current
  time as its publication date; a page saved as Draft (stored Draft or unset)
  loses a publication date that is not after the current time when
  \<open>GERBI_SHOW_START_DATE\<close> is on, and loses its publication date whatever it is
  when the setting is off; the date of last modification is the time of the
  save.
\<close>

theorem Page_save_normalizes:
  "\<exists>p c'. Page_save cfg now now' fresh self c = (Inr p, c')
     \<and> (status self = None \<longrightarrow> status p = Some DRAFT)
     \<and> (status self = Some PUBLISHED \<and> publication_date self = None
           \<longrightarrow> publication_date p = Some now)
     \<and> ((status self = None \<or> status self = Some DRAFT) \<and> GERBI_SHOW_START_DATE cfg
           \<and> (\<exists>d. publication_date self = Some d \<and> d \<le> now)
           \<longrightarrow> publication_date p = None)
     \<and> ((status self = None \<or> status self = Some DRAFT) \<and> \<not> GERBI_SHOW_START_DATE cfg
           \<longrightarrow> publication_date p = None)
     \<and> last_modification_date p = Some now'"
  unfolding Page_save_unfold
  by (auto simp add: super_save_fields default_status_fields stamp_published_fields
      clear_draft_fields DRAFT_def PUBLISHED_def)

text \<open>A new Published page, an unset status with a past date, and a Draft with a
  future date when the start date is not shown.\<close>

theorem Page_save_normalizes_witness:
  "(\<exists>p c'. Page_save (site_settings True) 10 11 7
              (Page_init\<lparr>status := Some PUBLISHED\<rparr>) no_cache = (Inr p, c')
       \<and> publication_date p = Some 10 \<and> last_modification_date p = Some 11)
   \<and> (\<exists>p c'. Page_save (site_settings True) 10 11 7
              (Page_init\<lparr>status := None, publication_date := Some 3\<rparr>) no_cache = (Inr p, c')
       \<and> status p = Some DRAFT \<and> publication_date p = None)
   \<and> (\<exists>p c'. Page_save ((site_settings True)\<lparr>GERBI_SHOW_START_DATE := False\<rparr>) 10 11 7
              (Page_init\<lparr>publication_date := Some 30\<rparr>) no_cache = (Inr p, c')
       \<and> publication_date p = None)"
  using
    Page_save_normalizes [of "site_settings True" 10 11 7
      "Page_init\<lparr>status := Some PUBLISHED\<rparr>" no_cache]
    Page_save_normalizes [of "site_settings True" 10 11 7
      "Page_init\<lparr>status := None, publication_date := Some 3\<rparr>" no_cache]
    Page_save_normalizes [of "(site_settings True)\<lparr>GERBI_SHOW_START_DATE := False\<rparr>" 10 11 7
      "Page_init\<lparr>publication_date := Some 30\<rparr>" no_cache]
  by (simp add: Page_init_def site_settings_def) blast

lemma Page_save_cache:
  assumes "i = (case page_id self of None \<Rightarrow> fresh | Some j \<Rightarrow> j)"
  shows "\<exists>p c'. Page_save cfg now now' fresh self c = (Inr p, c') \<and> page_id p = Some i
     \<and> cache p = None \<and> u_languages p = None \<and> u_complete_slug p = None
     \<and> (\<forall>k. store c' k =
            (if k = GERBI_BROKEN_LINK_KEY (page_id self) \<or> k = GERBI_FIRST_ROOT_ID
                \<or> k = gerbi_page i \<or> k = GERBI_URL_KEY i
             then None else store c k))
     \<and> ops c' = [Delete (GERBI_URL_KEY i), Delete (gerbi_page i), Delete GERBI_FIRST_ROOT_ID,
                  Delete (GERBI_BROKEN_LINK_KEY (page_id self))] @ ops c"
  unfolding Page_save_unfold assms
  by (simp add: store_cache_delete ops_cache_delete super_save_id
      default_status_fields stamp_published_fields clear_draft_fields)

lemma Content_save_cache:
  assumes "page_id (content_page x) = Some i"
  shows "\<exists>c'. Content_save x c =
       (Inr (x\<lparr>content_page :=
                 (content_page x)\<lparr>u_languages := None, u_complete_slug := None,
                                   cache := None\<rparr>\<rparr>), c')
     \<and> (\<forall>k. store c' k =
            (if k = GERBI_FIRST_ROOT_ID \<or> k = gerbi_page i \<or> k = GERBI_URL_KEY i
             then None else store c k))
     \<and> ops c' = [Delete (GERBI_URL_KEY i), Delete (gerbi_page i), Delete GERBI_FIRST_ROOT_ID]
                  @ ops c"
  by (simp add: Content_save_def invalidate_Some [OF assms] store_cache_delete ops_cache_delete)

text \<open>Saving a revision of B while B is flagged: the flag is still set.\<close>

theorem Content_save_keeps_flag_counterexample:
  "store (snd (Content_save revision_B flagged_cache)) (GERBI_BROKEN_LINK_KEY (Some 3))
     = Some (CachedFlag True)"
  using Content_save_cache [OF revision_B_page, of flagged_cache]
  by (auto simp add: flagged_cache_store)

text \<open>
  C2, as the code has it. Saving a page resets the three memo fields of the
  instance (content, languages, paths) and deletes exactly four keys: the
  broken-link flag of the id the page had when \<open>save\<close> was called, the first-root
  key, and the content and URL keys of the page, whose id is the one it had or,
  for a new page, the one it gets; every other key keeps its value. Saving a
  content revision of page \<open>j\<close> resets the three memo fields of the owning
  instance and deletes exactly three keys, the first-root key and the content
  and URL keys of page \<open>j\<close>: the broken-link flag of \<open>j\<close> is left as it was, and
  no \<open>Delete\<close> of it is among the operations performed.
\<close>

theorem save_invalidates:
  assumes "i = (case page_id self of None \<Rightarrow> fresh | Some n \<Rightarrow> n)"
    and "page_id (content_page x) = Some j"
  shows "(\<exists>p c'. Page_save cfg now now' fresh self c = (Inr p, c') \<and> page_id p = Some i
       \<and> cache p = None \<and> u_languages p = None \<and> u_complete_slug p = None
       \<and> (\<forall>k. store c' k =
            (if k = GERBI_BROKEN_LINK_KEY (page_id self) \<or> k = GERBI_FIRST_ROOT_ID
                \<or> k = gerbi_page i \<or> k = GERBI_URL_KEY i
             then None else store c k))
       \<and> ops c' = [Delete (GERBI_URL_KEY i), Delete (gerbi_page i),
                    Delete GERBI_FIRST_ROOT_ID,
                    Delete (GERBI_BROKEN_LINK_KEY (page_id self))] @ ops c)
   \<and> (\<exists>d'. Content_save x d =
         (Inr (x\<lparr>content_page :=
                   (content_page x)\<lparr>u_languages := None, u_complete_slug := None,
                                     cache := None\<rparr>\<rparr>), d')
       \<and> (\<forall>k. store d' k =
            (if k = GERBI_FIRST_ROOT_ID \<or> k = gerbi_page j \<or> k = GERBI_URL_KEY j
             then None else store d k))
       \<and> store d' (GERBI_BROKEN_LINK_KEY (Some j)) = store d (GERBI_BROKEN_LINK_KEY (Some j))
       \<and> ops d' = [Delete (GERBI_URL_KEY j), Delete (gerbi_page j),
                    Delete GERBI_FIRST_ROOT_ID] @ ops d)"
proof -
  from Content_save_cache [OF assms(2), of d] obtain d' where
    "Content_save x d =
       (Inr (x\<lparr>content_page :=
                 (content_page x)\<lparr>u_languages := None, u_complete_slug := None,
                                   cache := None\<rparr>\<rparr>), d')"
    "\<forall>k. store d' k =
        (if k = GERBI_FIRST_ROOT_ID \<or> k = gerbi_page j \<or> k = GERBI_URL_KEY j
         then None else store d k)"
    "ops d' = [Delete (GERBI_URL_KEY j), Delete (gerbi_page j), Delete GERBI_FIRST_ROOT_ID]
                @ ops d"
    by blast
  then have "\<exists>d'. Content_save x d =
         (Inr (x\<lparr>content_page :=
                   (content_page x)\<lparr>u_languages := None, u_complete_slug := None,
                                     cache := None\<rparr>\<rparr>), d')
       \<and> (\<forall>k. store d' k =
            (if k = GERBI_FIRST_ROOT_ID \<or> k = gerbi_page j \<or> k = GERBI_URL_KEY j
             then None else store d k))
       \<and> store d' (GERBI_BROKEN_LINK_KEY (Some j)) = store d (GERBI_BROKEN_LINK_KEY (Some j))
       \<and> ops d' = [Delete (GERBI_URL_KEY j), Delete (gerbi_page j),
                    Delete GERBI_FIRST_ROOT_ID] @ ops d"
    by simp
  with Page_save_cache [OF assms(1), of cfg now now' c] show ?thesis by blast
qed

lemma visited_revision_page:
  "page_id (content_page (revision_B\<lparr>content_page := visited_B\<rparr>)) = Some 3"
  by (simp add: visited_B_fields)

text \<open>An instance of B with its memo fields filled, and a cache that holds the
  entries of B, its flag and the path of A: saving B empties the memo fields and
  the four keys; saving a revision of B empties the memo fields and three keys
  and keeps the flag; the path of A stays in both.\<close>

theorem save_invalidates_witness:
  "(\<exists>p c'. Page_save (site_settings True) 10 11 7 visited_B busy_cache = (Inr p, c')
       \<and> page_id p = Some 3
       \<and> cache p = None \<and> u_languages p = None \<and> u_complete_slug p = None
       \<and> store c' (GERBI_BROKEN_LINK_KEY (Some 3)) = None
       \<and> store c' GERBI_FIRST_ROOT_ID = None
       \<and> store c' (gerbi_page 3) = None
       \<and> store c' (GERBI_URL_KEY 3) = None
       \<and> store c' (GERBI_URL_KEY 2) = Some (CachedSlugs [''en'' \<mapsto> ''home/about'']))
   \<and> (\<exists>x' d'. Content_save (revision_B\<lparr>content_page := visited_B\<rparr>) busy_cache = (Inr x', d')
       \<and> cache (content_page x') = None \<and> u_languages (content_page x') = None
       \<and> u_complete_slug (content_page x') = None
       \<and> store d' (GERBI_BROKEN_LINK_KEY (Some 3)) = Some (CachedFlag True)
       \<and> store d' GERBI_FIRST_ROOT_ID = None
       \<and> store d' (gerbi_page 3) = None
       \<and> store d' (GERBI_URL_KEY 3) = None
       \<and> store d' (GERBI_URL_KEY 2) = Some (CachedSlugs [''en'' \<mapsto> ''home/about'']))"
proof -
  have i: "(3 :: int) = (case page_id visited_B of None \<Rightarrow> 7 | Some n \<Rightarrow> n)"
    by (simp add: visited_B_fields)
  from save_invalidates [OF i visited_revision_page,
      of "site_settings True" 10 11 busy_cache busy_cache]
  show ?thesis
    by (elim conjE exE) (simp add: busy_cache_store visited_B_fields)
qed

subsection \<open>Calculated status\<close>

text \<open>
  C6. With \<open>GERBI_SHOW_START_DATE\<close> on and a publication date after the current
  time, the calculated status is Draft, whatever the stored status.
\<close>

theorem calculated_status_future:
  "GERBI_SHOW_START_DATE cfg \<Longrightarrow> publication_date self = Some d \<Longrightarrow> now < d
   \<Longrightarrow> get_calculated_status cfg now now' self = Some DRAFT"
  by (simp add: get_calculated_status_def)

text \<open>R is stored as Published and is to be published at 20; at 10 it is a
  Draft.\<close>

theorem calculated_status_future_witness:
  "get_calculated_status (site_settings True) 10 11 (page_R\<lparr>publication_date := Some 20\<rparr>)
     = Some DRAFT
   \<and> status (page_R\<lparr>publication_date := Some 20\<rparr>) = Some PUBLISHED"
  using calculated_status_future [of "site_settings True" "page_R\<lparr>publication_date := Some 20\<rparr>"
      20 10 11]
  by (simp add: site_settings_def page_R_def)

subsection \<open>The guard of \<open>build_cache\<close>\<close>

text \<open>
  C7. A page without an id (\<open>not self.id\<close>: the id is \<open>None\<close> or \<open>0\<close>) makes
  \<open>build_cache\<close> raise \<open>ValueError\<close>, and the instance and the shared cache, the
  list of its operations included, are as before: nothing was read or written.
  A page with an id never gets a \<open>ValueError\<close> from \<open>build_cache\<close>.
\<close>

theorem build_cache_no_id:
  "((page_id self = None \<or> page_id self = Some 0) \<longrightarrow>
      build_cache cfg rows self lang c = (Inl (ValueError ''Page have no id''), self, c))
   \<and> (\<forall>i. page_id self = Some i \<and> i \<noteq> 0 \<longrightarrow>
        (\<forall>msg. fst (build_cache cfg rows self lang c) \<noteq> Inl (ValueError msg)))"
  by (auto simp add: build_cache_def fill_cache_def Let_def cache_get_def as_content_def
      split: option.splits cached.splits prod.splits sum.splits if_splits)

text \<open>A page fresh from \<open>Page.__init__\<close> is refused; B is not.\<close>

theorem build_cache_no_id_witness:
  "build_cache (site_settings True) [revision_B] Page_init None no_cache
     = (Inl (ValueError ''Page have no id''), Page_init, no_cache)
   \<and> fst (build_cache (site_settings True) [revision_B] page_B None no_cache)
     \<noteq> Inl (ValueError ''Page have no id'')"
  using build_cache_no_id [of Page_init "site_settings True" "[revision_B]" None no_cache]
    build_cache_no_id [of page_B "site_settings True" "[revision_B]" None no_cache]
  by (simp add: Page_init_def page_fields)

subsection \<open>The first root\<close>

lemma first_root_B: "fst (is_first_root site page_B no_cache) = False"
  by (simp add: is_first_root_def page_fields)

lemma first_root_R: "fst (is_first_root site page_R no_cache) = True"
  by (simp add: is_first_root_def page_fields cache_get_def no_cache_def objects_root_def
      site_def Let_def)

text \<open>
  C10. For a page with a parent \<open>is_first_root\<close> is \<open>False\<close> and leaves the
  instance and the shared cache, the list of its operations included, untouched.
  So a page for which \<open>is_first_root\<close> is \<open>True\<close> has no parent, and when the
  call changes the store of the cache, what it records under the first-root
  key is the id of the first top-level page of the forest.
\<close>

theorem is_first_root_parent:
  "(parent self \<noteq> None \<longrightarrow> is_first_root f self c = (False, self, c))
   \<and> (fst (is_first_root f self c) \<longrightarrow> parent self = None)
   \<and> (store (snd (snd (is_first_root f self c))) = store c
      \<or> (\<exists>r rs i. objects_root f = r # rs \<and> page_id r = Some i
           \<and> store (snd (snd (is_first_root f self c))) = (store c)(GERBI_FIRST_ROOT_ID \<mapsto> CachedId i)))"
  by (auto simp add: is_first_root_def cache_get_def cache_set_def Let_def
      split: option.splits list.splits)

text \<open>B has a parent; R is the first root.\<close>

theorem is_first_root_parent_witness:
  "is_first_root site page_B no_cache = (False, page_B, no_cache)
   \<and> fst (is_first_root site page_R no_cache) \<and> parent page_R = None"
  using is_first_root_parent [of page_B site no_cache]
    is_first_root_parent [of page_R site no_cache]
  by (simp add: page_fields first_root_R)

subsection \<open>Templates\<close>

lemma ancestors_A: "get_ancestors site page_A True = [page_R]"
  by (simp add: get_ancestors_def position_def site_def page_fields)

lemma ancestors_B: "get_ancestors site page_B True = [page_A, page_R]"
  by (simp add: get_ancestors_def position_def site_def page_fields)

lemma ancestors_R: "get_ancestors site page_R True = []"
  by (simp add: get_ancestors_def position_def site_def page_fields)

lemma ancestors_N: "get_ancestors site_before_N page_N True = []"
  by (simp add: get_ancestors_def position_def site_before_N_def site_def page_fields)

lemma closest_template_find:
  "closest_template ps =
     (case find (\<lambda>p. truthy (template p)) ps of None \<Rightarrow> None | Some a \<Rightarrow> template a)"
  by (induction ps) simp_all

text \<open>
  C8. The template of a page is its own when that is set (neither \<open>None\<close> nor
  empty); otherwise the template of the nearest ancestor that has one set, the
  ancestors taken nearest first; otherwise \<open>GERBI_DEFAULT_TEMPLATE\<close>.
\<close>

theorem get_template_inherits:
  "(truthy (template self) \<longrightarrow> Some (get_template cfg f self) = template self)
   \<and> (\<not> truthy (template self) \<longrightarrow>
        (case find (\<lambda>p. truthy (template p)) (get_ancestors f self True) of
           Some a \<Rightarrow> Some (get_template cfg f self) = template a
         | None \<Rightarrow> get_template cfg f self = GERBI_DEFAULT_TEMPLATE cfg))"
  by (auto simp add: get_template_def closest_template_find truthy_def Let_def
      split: option.splits dest: find_Some_iff [THEN iffD1])

text \<open>A has its own template, B inherits it from A, R falls back on the
  default.\<close>

theorem get_template_inherits_witness:
  "get_template (site_settings True) site page_A = ''wide.html''
   \<and> get_template (site_settings True) site page_B = ''wide.html''
   \<and> get_template (site_settings True) site page_R = ''index.html''"
  using get_template_inherits [of page_A "site_settings True" site]
    get_template_inherits [of page_B "site_settings True" site]
    get_template_inherits [of page_R "site_settings True" site]
  by (simp add: templates truthy_def ancestors_A ancestors_B ancestors_R site_settings_def)

subsection \<open>Complete slugs\<close>

lemma prepend_slugs_concat:
  "prepend_slugs slug lang url ancestors =
     concat (map (\<lambda>a. slug (page_id a) lang @ ''/'') (rev ancestors)) @ url"
  unfolding prepend_slugs_def
  by (induction ancestors arbitrary: url) simp_all

lemma get_ancestors_cong:
  "page_id x = page_id y \<Longrightarrow> get_ancestors f x asc = get_ancestors f y asc"
  by (simp add: get_ancestors_def position_def)

lemma ancestors_visited_B: "get_ancestors site visited_B True = [page_A, page_R]"
  using get_ancestors_cong [of visited_B page_B site True]
  by (simp add: visited_B_fields page_fields ancestors_B)

lemma is_first_root_page_id:
  "page_id (fst (snd (is_first_root f self c))) = page_id self"
  by (simp add: is_first_root_def cache_get_def Let_def split: option.splits list.splits)

lemma is_first_root_cong:
  assumes "parent x = parent y" "page_id x = page_id y" "u_is_first_root x = u_is_first_root y"
    "store c GERBI_FIRST_ROOT_ID = store d GERBI_FIRST_ROOT_ID"
  shows "fst (is_first_root f x c) = fst (is_first_root f y d)"
  using assms
  by (simp add: is_first_root_def cache_get_def Let_def split: option.splits list.splits)

text \<open>For a saved page, \<open>is_first_root\<close> in full.\<close>

lemma is_first_root_fst:
  assumes "page_id self = Some i"
  shows "fst (is_first_root f self c) =
     (parent self = None
      \<and> (case u_is_first_root self of
           Some b \<Rightarrow> b
         | None \<Rightarrow>
            (case store c GERBI_FIRST_ROOT_ID of
               Some v \<Rightarrow> v = CachedId i
             | None \<Rightarrow> (case f of [] \<Rightarrow> False | t # _ \<Rightarrow> page_id (root t) = Some i))))"
  using assms
  by (auto simp add: is_first_root_def cache_get_def objects_root_def Let_def
      split: option.splits list.splits)

lemma or_default_requested:
  assumes "language = Some lang \<and> lang \<noteq> []
     \<or> (language = None \<or> language = Some []) \<and> lang = GERBI_DEFAULT_LANGUAGE cfg"
  shows "or_default cfg language = lang"
  using assms by (auto simp add: or_default_def)

lemma memoized_miss:
  assumes "u_complete_slug self = None \<or> (\<exists>d. u_complete_slug self = Some d \<and> d lang = None)"
  shows "memoized (u_complete_slug self) lang = None"
  using assms by (auto simp add: memoized_def)

lemma memoized_hit:
  assumes "u_complete_slug self = Some d" "d lang = Some url"
  shows "memoized (u_complete_slug self) lang = Some url"
  using assms by (auto simp add: memoized_def)

lemma compute_complete_slug_fst:
  "fst (compute_complete_slug cfg f slug self lang hideroot k m c) =
     Inr (concat (map (\<lambda>a. slug (page_id a) lang @ ''/'') (rev (get_ancestors f self True)))
          @ (if hideroot \<and> GERBI_HIDE_ROOT_SLUG cfg \<and> fst (is_first_root f self c)
             then [] else slug (page_id self) lang))"
proof (cases "hideroot \<and> GERBI_HIDE_ROOT_SLUG cfg")
  case True
  obtain b s1 c1 where r: "is_first_root f self c = (b, s1, c1)"
    by (cases "is_first_root f self c") auto
  from r have "page_id s1 = page_id self"
    using is_first_root_page_id [of f self c] by simp
  with True r show ?thesis
    by (simp add: compute_complete_slug_def prepend_slugs_concat Let_def
        get_ancestors_cong [of s1 self])
next
  case False
  then show ?thesis
    by (auto simp add: compute_complete_slug_def prepend_slugs_concat Let_def)
qed

lemma get_complete_slug_miss:
  assumes "memoized (u_complete_slug self) (or_default cfg language) = None"
    "page_id self = Some i"
    "store c (GERBI_URL_KEY i) = None
     \<or> (\<exists>m. store c (GERBI_URL_KEY i) = Some (CachedSlugs m)
            \<and> m (or_default cfg language) = None)"
  shows "fst (get_complete_slug cfg f slug self language hideroot c) =
     Inr (concat (map (\<lambda>a. slug (page_id a) (or_default cfg language) @ ''/'')
                    (rev (get_ancestors f self True)))
          @ (if hideroot \<and> GERBI_HIDE_ROOT_SLUG cfg \<and> fst (is_first_root f self c)
             then [] else slug (Some i) (or_default cfg language)))"
proof -
  let ?c = "c\<lparr>ops := Get (GERBI_URL_KEY i) # ops c\<rparr>"
  have a: "get_ancestors f (self\<lparr>u_complete_slug := d\<rparr>) True = get_ancestors f self True" for d
    by (rule get_ancestors_cong) simp
  have b: "fst (is_first_root f (self\<lparr>u_complete_slug := d\<rparr>) ?c) = fst (is_first_root f self c)"
    for d
    by (rule is_first_root_cong) simp_all
  from assms(3) show ?thesis
  proof
    assume "store c (GERBI_URL_KEY i) = None"
    with assms(1,2) show ?thesis
      by (simp add: get_complete_slug_def fmt_d_def cache_get_def as_slugs_def
          Let_def compute_complete_slug_fst a b)
  next
    assume "\<exists>m. store c (GERBI_URL_KEY i) = Some (CachedSlugs m)
            \<and> m (or_default cfg language) = None"
    then obtain m where "store c (GERBI_URL_KEY i) = Some (CachedSlugs m)"
      "m (or_default cfg language) = None" by blast
    with assms(1,2) show ?thesis
      by (simp add: get_complete_slug_def fmt_d_def cache_get_def as_slugs_def
          Let_def compute_complete_slug_fst a b)
  qed
qed

text \<open>The scenario with the root slug hidden: the complete slug of B is not
  \<open>about/team\<close>.\<close>

theorem complete_slug_scenario_counterexample:
  "fst (get_complete_slug (site_settings True) site site_slug page_B None True no_cache)
     \<noteq> Inr ''about/team''"
  using get_complete_slug_miss [where self = page_B and i = 3 and c = no_cache
      and cfg = "site_settings True" and f = site and slug = site_slug and language = None
      and hideroot = True]
  by (simp add: page_fields ancestors_B first_root_B site_settings_fields site_slug_def
      store_no_cache memoized_def)

text \<open>
  C1, as the code has it. On a miss, that is when neither the memo of the
  instance nor the entry of the page in the shared cache holds a path for the
  language asked for (the default language when none is given), the complete
  slug is the slugs of the ancestors, farthest first, each followed by \<open>/\<close>, and
  then the slug of the page itself. The slug of the page itself is left out when
  \<open>hideroot\<close> and \<open>GERBI_HIDE_ROOT_SLUG\<close> hold and the page is the first root: it
  has no parent and is the first root by its own memo, else by the id under the
  first-root key, else by being the first top-level page of the forest. The slug
  of an ancestor is never left out: in the scenario the complete slug of B is
  \<open>home/about/team\<close> with the root slug hidden and shown, and that of R is
  empty when hidden and \<open>home\<close> when shown.
\<close>

theorem get_complete_slug_on_miss:
  assumes "language = Some lang \<and> lang \<noteq> []
     \<or> (language = None \<or> language = Some []) \<and> lang = GERBI_DEFAULT_LANGUAGE cfg"
    and "u_complete_slug self = None \<or> (\<exists>d. u_complete_slug self = Some d \<and> d lang = None)"
    and "page_id self = Some i"
    and "store c (GERBI_URL_KEY i) = None
     \<or> (\<exists>m. store c (GERBI_URL_KEY i) = Some (CachedSlugs m) \<and> m lang = None)"
  shows "fst (get_complete_slug cfg f slug self language hideroot c) =
     Inr (concat (map (\<lambda>a. slug (page_id a) lang @ ''/'') (rev (get_ancestors f self True)))
          @ (if hideroot \<and> GERBI_HIDE_ROOT_SLUG cfg
                \<and> parent self = None
                \<and> (case u_is_first_root self of
                     Some b \<Rightarrow> b
                   | None \<Rightarrow>
                      (case store c GERBI_FIRST_ROOT_ID of
                         Some v \<Rightarrow> v = CachedId i
                       | None \<Rightarrow>
                          (case f of [] \<Rightarrow> False | t # _ \<Rightarrow> page_id (root t) = Some i)))
             then [] else slug (Some i) lang))"
proof -
  note l = or_default_requested [OF assms(1)]
  have "memoized (u_complete_slug self) (or_default cfg language) = None"
    unfolding l by (rule memoized_miss [OF assms(2)])
  from get_complete_slug_miss [OF this assms(3), of c f slug hideroot] assms(4)
  show ?thesis
    unfolding l is_first_root_fst [OF assms(3)] by simp
qed

text \<open>The scenario, under both settings, for B and for R; N, a second root, keeps
  its slug; and a request in French of an instance of B whose memo and shared
  entry hold the English path only.\<close>

theorem get_complete_slug_on_miss_witness:
  "fst (get_complete_slug (site_settings True) site site_slug page_B None True no_cache)
     = Inr ''home/about/team''
   \<and> fst (get_complete_slug (site_settings False) site site_slug page_B None True no_cache)
     = Inr ''home/about/team''
   \<and> fst (get_complete_slug (site_settings True) site site_slug page_R None True no_cache)
     = Inr []
   \<and> fst (get_complete_slug (site_settings False) site site_slug page_R None True no_cache)
     = Inr ''home''
   \<and> fst (get_complete_slug (site_settings True) site_before_N site_slug page_N None True
            no_cache)
     = Inr ''news''
   \<and> fst (get_complete_slug (site_settings True) site site_slug visited_B (Some ''fr'') True
            busy_cache)
     = Inr ''accueil/a-propos/equipe''"
  using
    get_complete_slug_on_miss [where self = page_B and i = 3 and c = no_cache
      and cfg = "site_settings True" and f = site and slug = site_slug and language = None
      and lang = "''en''" and hideroot = True]
    get_complete_slug_on_miss [where self = page_B and i = 3 and c = no_cache
      and cfg = "site_settings False" and f = site and slug = site_slug and language = None
      and lang = "''en''" and hideroot = True]
    get_complete_slug_on_miss [where self = page_R and i = 1 and c = no_cache
      and cfg = "site_settings True" and f = site and slug = site_slug and language = None
      and lang = "''en''" and hideroot = True]
    get_complete_slug_on_miss [where self = page_R and i = 1 and c = no_cache
      and cfg = "site_settings False" and f = site and slug = site_slug and language = None
      and lang = "''en''" and hideroot = True]
    get_complete_slug_on_miss [where self = page_N and i = 4 and c = no_cache
      and cfg = "site_settings True" and f = site_before_N and slug = site_slug
      and language = None and lang = "''en''" and hideroot = True]
    get_complete_slug_on_miss [where self = visited_B and i = 3 and c = busy_cache
      and cfg = "site_settings True" and f = site and slug = site_slug
      and language = "Some ''fr''" and lang = "''fr''" and hideroot = True]
  by (simp add: page_fields visited_B_fields busy_cache_store ancestors_B ancestors_R
      ancestors_N ancestors_visited_B first_of_site site_settings_fields site_slug_def
      store_no_cache)

text \<open>The two look-ups: a path in the memo of the instance is returned and
  nothing changes; a path in the shared cache is returned after one \<open>Get\<close>.\<close>

lemma get_complete_slug_memo_hit:
  "memoized (u_complete_slug self) (or_default cfg language) = Some url \<Longrightarrow>
   get_complete_slug cfg f slug self language hideroot c = (Inr url, self, c)"
  by (simp add: get_complete_slug_def)

lemma get_complete_slug_shared_hit:
  assumes "memoized (u_complete_slug self) (or_default cfg language) = None"
    "page_id self = Some i" "store c (GERBI_URL_KEY i) = Some (CachedSlugs m)"
    "m (or_default cfg language) = Some url"
  shows "get_complete_slug cfg f slug self language hideroot c =
           (Inr url, self\<lparr>u_complete_slug := Some m\<rparr>, c\<lparr>ops := Get (GERBI_URL_KEY i) # ops c\<rparr>)"
  using assms
  by (simp add: get_complete_slug_def fmt_d_def cache_get_def as_slugs_def)

lemma compute_complete_slug_memo:
  assumes "compute_complete_slug cfg f slug self lang hideroot k m c = (Inr url, self', c')"
  shows "u_complete_slug self' = Some (m(lang \<mapsto> url))
       \<and> store c' k = Some (CachedSlugs (m(lang \<mapsto> url)))"
  using assms
  by (auto simp add: compute_complete_slug_def Let_def cache_set_def split: prod.splits)

lemma memoized_upd: "memoized (Some (m(lang \<mapsto> url))) lang = Some url"
  by (simp add: memoized_def)

text \<open>A call that returns a path leaves it in the memo of the instance.\<close>

lemma get_complete_slug_populates:
  assumes "get_complete_slug cfg f slug self language hideroot c = (Inr url, self', c')"
  shows "memoized (u_complete_slug self') (or_default cfg language) = Some url"
proof (cases "memoized (u_complete_slug self) (or_default cfg language)")
  case (Some u)
  with assms show ?thesis by (simp add: get_complete_slug_def)
next
  case None
  show ?thesis
  proof (cases "page_id self")
    case N: None
    with None assms show ?thesis by (simp add: get_complete_slug_def fmt_d_def)
  next
    case (Some i)
    show ?thesis
    proof (cases "as_slugs (store c (GERBI_URL_KEY i))")
      case (Inl e)
      with None Some assms show ?thesis
        by (simp add: get_complete_slug_def fmt_d_def cache_get_def)
    next
      case (Inr got)
      show ?thesis
      proof (cases got)
        case G: None
        with None Some Inr assms
        have "compute_complete_slug cfg f slug (self\<lparr>u_complete_slug := Some Map.empty\<rparr>)
                (or_default cfg language) hideroot (GERBI_URL_KEY i) Map.empty
                (c\<lparr>ops := Get (GERBI_URL_KEY i) # ops c\<rparr>) = (Inr url, self', c')"
          by (simp add: get_complete_slug_def fmt_d_def cache_get_def)
        from compute_complete_slug_memo [OF this] show ?thesis
          by (simp add: memoized_upd)
      next
        case G: (Some m)
        show ?thesis
        proof (cases "m (or_default cfg language)")
          case M: None
          with None Some Inr G assms
          have "compute_complete_slug cfg f slug (self\<lparr>u_complete_slug := Some m\<rparr>)
                  (or_default cfg language) hideroot (GERBI_URL_KEY i) m
                  (c\<lparr>ops := Get (GERBI_URL_KEY i) # ops c\<rparr>) = (Inr url, self', c')"
            by (simp add: get_complete_slug_def fmt_d_def cache_get_def)
          from compute_complete_slug_memo [OF this] show ?thesis
            by (simp add: memoized_upd)
        next
          case M: (Some u)
          with None Some Inr G assms have "self' = self\<lparr>u_complete_slug := Some m\<rparr>" "u = url"
            by (simp_all add: get_complete_slug_def fmt_d_def cache_get_def)
          with M show ?thesis
            by (auto simp add: memoized_def)
        qed
      qed
    qed
  qed
qed

lemma get_complete_slug_again:
  assumes "get_complete_slug cfg f slug self language h0 c = (Inr url, self', c')"
  shows "get_complete_slug cfg f slug self' language h c' = (Inr url, self', c')"
  by (rule get_complete_slug_memo_hit) (rule get_complete_slug_populates [OF assms])

lemma first_call_R:
  "fst (get_complete_slug (site_settings True) site site_slug page_R None True no_cache) = Inr []"
  using get_complete_slug_miss [where self = page_R and i = 1 and c = no_cache
      and cfg = "site_settings True" and f = site and slug = site_slug and language = None
      and hideroot = True]
  by (simp add: page_fields ancestors_R first_root_R site_settings_fields store_no_cache
      memoized_def)

lemma cold_call_R:
  "fst (get_complete_slug (site_settings True) site site_slug page_R None False no_cache)
     = Inr ''home''"
  using get_complete_slug_miss [where self = page_R and i = 1 and c = no_cache
      and cfg = "site_settings True" and f = site and slug = site_slug and language = None
      and hideroot = False]
  by (simp add: page_fields ancestors_R site_settings_fields store_no_cache site_slug_def
      memoized_def)

text \<open>
  C9. For the language asked for (the default language when none is given) and
  every value of \<open>hideroot\<close>: a path held by the memo of the instance is
  returned, and the instance and the shared cache are as before; when the memo
  holds none and the shared cache holds one under the URL key of the page, that
  one is returned after one \<open>Get\<close> and the dictionary read becomes the memo;
  and after a call that returned a path, whatever its \<open>hideroot\<close>, the next call
  on the instance and the cache it left returns the same path and changes
  nothing. \<open>hideroot\<close> is read only after both look-ups have missed.
\<close>

theorem get_complete_slug_ignores_hideroot:
  assumes "language = Some lang \<and> lang \<noteq> []
     \<or> (language = None \<or> language = Some []) \<and> lang = GERBI_DEFAULT_LANGUAGE cfg"
  shows "(\<forall>d url. u_complete_slug self = Some d \<and> d lang = Some url \<longrightarrow>
            get_complete_slug cfg f slug self language hideroot c = (Inr url, self, c))
   \<and> (\<forall>i m url.
         (u_complete_slug self = None \<or> (\<exists>d. u_complete_slug self = Some d \<and> d lang = None))
         \<and> page_id self = Some i \<and> store c (GERBI_URL_KEY i) = Some (CachedSlugs m)
         \<and> m lang = Some url \<longrightarrow>
            get_complete_slug cfg f slug self language hideroot c =
              (Inr url, self\<lparr>u_complete_slug := Some m\<rparr>,
               c\<lparr>ops := Get (GERBI_URL_KEY i) # ops c\<rparr>))
   \<and> (\<forall>h0 url self' c'.
         get_complete_slug cfg f slug self language h0 c = (Inr url, self', c') \<longrightarrow>
            get_complete_slug cfg f slug self' language hideroot c' = (Inr url, self', c'))"
proof -
  note l = or_default_requested [OF assms]
  have 1: "get_complete_slug cfg f slug self language hideroot c = (Inr url, self, c)"
    if "u_complete_slug self = Some d" "d lang = Some url" for d url
    using get_complete_slug_memo_hit [of self cfg language url f slug hideroot c]
      memoized_hit [OF that] by (simp add: l)
  have 2: "get_complete_slug cfg f slug self language hideroot c =
      (Inr url, self\<lparr>u_complete_slug := Some m\<rparr>, c\<lparr>ops := Get (GERBI_URL_KEY i) # ops c\<rparr>)"
    if "u_complete_slug self = None \<or> (\<exists>d. u_complete_slug self = Some d \<and> d lang = None)"
      "page_id self = Some i" "store c (GERBI_URL_KEY i) = Some (CachedSlugs m)"
      "m lang = Some url" for i m url
    using get_complete_slug_shared_hit [of self cfg language i c m url f slug hideroot]
      memoized_miss [OF that(1)] that(2-4) by (simp add: l)
  have 3: "get_complete_slug cfg f slug self' language hideroot c' = (Inr url, self', c')"
    if "get_complete_slug cfg f slug self language h0 c = (Inr url, self', c')"
    for h0 url self' c'
    using that by (rule get_complete_slug_again)
  from 1 2 3 show ?thesis by blast
qed

text \<open>With the root slug hidden, a first call on R with \<open>hideroot\<close> returns the
  empty path and the next call, without \<open>hideroot\<close>, returns it again and
  changes nothing; an instance of R with the empty path in its memo and a new
  instance of B with its path in the shared cache get these paths without
  \<open>hideroot\<close>; a first call on R without \<open>hideroot\<close> returns \<open>home\<close>.\<close>

theorem get_complete_slug_ignores_hideroot_witness:
  "(let first = get_complete_slug (site_settings True) site site_slug page_R None True no_cache
    in fst first = Inr []
     \<and> get_complete_slug (site_settings True) site site_slug (fst (snd first)) None False
          (snd (snd first)) = (Inr [], snd first))
   \<and> fst (get_complete_slug (site_settings True) site site_slug
            (page_R\<lparr>u_complete_slug := Some [''en'' \<mapsto> []]\<rparr>) None False no_cache) = Inr []
   \<and> fst (get_complete_slug (site_settings True) site site_slug page_B (Some ''en'') False
            busy_cache) = Inr ''home/about/team''
   \<and> fst (get_complete_slug (site_settings True) site site_slug page_R None False no_cache)
       = Inr ''home''"
proof -
  obtain r s' c' where
    first: "get_complete_slug (site_settings True) site site_slug page_R None True no_cache
              = (r, s', c')"
    by (cases "get_complete_slug (site_settings True) site site_slug page_R None True no_cache")
      auto
  with first_call_R have r: "r = Inr []" by simp
  have en: "(None :: language option) = Some ''en'' \<and> ''en'' \<noteq> []
     \<or> ((None :: language option) = None \<or> (None :: language option) = Some [])
       \<and> ''en'' = GERBI_DEFAULT_LANGUAGE (site_settings True)"
    by (simp add: site_settings_fields)
  have en': "Some ''en'' = Some ''en'' \<and> ''en'' \<noteq> []
     \<or> (Some ''en'' = None \<or> Some ''en'' = Some [])
       \<and> ''en'' = GERBI_DEFAULT_LANGUAGE (site_settings True)"
    by simp
  from get_complete_slug_ignores_hideroot [OF en, of page_R site site_slug False no_cache]
    first r
  have again: "get_complete_slug (site_settings True) site site_slug s' None False c'
      = (Inr [], s', c')"
    by blast
  from get_complete_slug_ignores_hideroot [OF en,
      of "page_R\<lparr>u_complete_slug := Some [''en'' \<mapsto> []]\<rparr>" site site_slug False no_cache]
  have memo: "fst (get_complete_slug (site_settings True) site site_slug
            (page_R\<lparr>u_complete_slug := Some [''en'' \<mapsto> []]\<rparr>) None False no_cache) = Inr []"
    by simp
  from get_complete_slug_ignores_hideroot [OF en', of page_B site site_slug False busy_cache]
  have shared: "fst (get_complete_slug (site_settings True) site site_slug page_B (Some ''en'')
      False busy_cache) = Inr ''home/about/team''"
    by (simp add: page_fields busy_cache_store)
  from first r again memo shared cold_call_R show ?thesis by simp
qed

subsection \<open>Book traversal\<close>

text \<open>For a page that has an ancestor, \<open>get_next_in_book\<close> returns the first
  child, else the next sibling, else the next sibling of the nearest ancestor
  that has one, the root of the tree left out, else \<open>None\<close>.\<close>

lemma get_next_in_book_inner:
  assumes "get_ancestors f self True \<noteq> []"
  shows "get_next_in_book f self =
     Inr (case get_children f self of
            c # _ \<Rightarrow> Some c
          | [] \<Rightarrow> (case get_next_sibling f self of
                     Some s \<Rightarrow> Some s
                   | None \<Rightarrow> first_next_sibling f (butlast (get_ancestors f self True))))"
proof -
  have "qs_slice xs 0 (int (length xs) - 1) = Inr (butlast xs)" if "xs \<noteq> []" for xs :: "page list"
    using that by (cases xs rule: rev_cases) (simp_all add: qs_slice_def nat_diff_distrib')
  with assms show ?thesis
    by (simp add: get_next_in_book_def Let_def split: list.splits option.splits)
qed

text \<open>A root without children and without a following root: the slice
  \<open>[0:cnt-1]\<close> of its ancestors is \<open>[0:-1]\<close>, which a \<open>QuerySet\<close> refuses.\<close>

lemma get_next_in_book_root_leaf:
  assumes "get_ancestors f self True = []" "get_children f self = []"
    "get_next_sibling f self = None"
  shows "get_next_in_book f self = Inl AssertionError"
  using assms by (simp add: get_next_in_book_def qs_slice_def)

text \<open>\<open>get_next_in_book\<close> in full.\<close>

lemma get_next_in_book_cases:
  "get_next_in_book f self =
     (case get_children f self of
        c # _ \<Rightarrow> Inr (Some c)
      | [] \<Rightarrow>
         (case get_next_sibling f self of
            Some s \<Rightarrow> Inr (Some s)
          | None \<Rightarrow>
             if get_ancestors f self True = [] then Inl AssertionError
             else Inr (first_next_sibling f (butlast (get_ancestors f self True)))))"
proof (cases "get_ancestors f self True = []")
  case True
  then show ?thesis
    by (simp add: get_next_in_book_def qs_slice_def split: list.splits option.splits)
next
  case False
  from get_next_in_book_inner [OF this] False show ?thesis
    by (simp split: list.splits option.splits)
qed

lemma position_N_before:
  "position site_before_N page_N
     = Some ([], [Node page_R [Node page_A [Node page_B []]]], Node page_N [], [])"
  by (simp add: position_def site_before_N_def site_def page_fields)

lemma position_N_after:
  "position site_after_N page_N
     = Some ([], [], Node page_N [], [Node page_R [Node page_A [Node page_B []]]])"
  by (simp add: position_def site_after_N_def site_def page_fields)

lemma position_R_after:
  "position site_after_N page_R
     = Some ([], [Node page_N []], Node page_R [Node page_A [Node page_B []]], [])"
  by (simp add: position_def site_after_N_def site_def page_fields)

lemma consistent_site: "consistent site"
  by (simp add: consistent_def placed_def site_def page_fields)

lemma consistent_site_before_N: "consistent site_before_N"
  by (simp add: consistent_def placed_def site_before_N_def site_def page_fields)

lemma consistent_site_after_N: "consistent site_after_N"
  by (simp add: consistent_def placed_def site_after_N_def site_def page_fields)

text \<open>
  C4. In a consistent forest, N is the last root and has neither children nor a
  next sibling: \<open>get_next_in_book\<close> of N does not return \<open>None\<close>, it raises
  \<open>AssertionError\<close>.
\<close>

theorem get_next_in_book_last_root:
  "consistent site_before_N \<and> get_children site_before_N page_N = []
   \<and> get_next_sibling site_before_N page_N = None
   \<and> get_next_in_book site_before_N page_N = Inl AssertionError"
proof -
  have "get_ancestors site_before_N page_N True = []"
    "get_children site_before_N page_N = []" "get_next_sibling site_before_N page_N = None"
    by (simp_all add: get_ancestors_def get_children_def get_next_sibling_def
        position_N_before)
  with get_next_in_book_root_leaf [of site_before_N page_N] consistent_site_before_N
  show ?thesis by simp
qed

text \<open>
  C3. In a consistent forest, N is a root without children and R the root of
  the next tree: \<open>get_next_in_book\<close> of N is R, a page whose root is R and
  not N, the root of N.
\<close>

theorem get_next_in_book_leaves_tree:
  "consistent site_after_N
   \<and> get_next_in_book site_after_N page_N = Inr (Some page_R)
   \<and> get_root site_after_N page_N = Some page_N
   \<and> get_root site_after_N page_R = Some page_R
   \<and> page_R \<noteq> page_N"
  by (simp add: get_next_in_book_def get_ancestors_def get_children_def get_next_sibling_def
      get_root_def position_N_after position_R_after page_R_neq_N consistent_site_after_N)

subsection \<open>Locations in a consistent forest\<close>

lemma find_app:
  "find P (xs @ ys) = (case find P xs of None \<Rightarrow> find P ys | Some x \<Rightarrow> Some x)"
  by (induction xs) simp_all

lemma locate_find:
  "locate i anc ls ts = find (\<lambda>l. page_id (node_of l) = Some i) (locs anc ls ts)"
  by (induction i anc ls ts rule: locate.induct)
     (simp_all add: node_of_def find_app split: option.splits)

lemma locs_nodes: "map node_of (locs anc ls ts) = preorders ts"
proof (induction anc ls ts rule: locs.induct)
  case (1 anc ls)
  then show ?case by simp
next
  case (2 anc ls p cs rs)
  then show ?case by (simp add: node_of_def)
qed

lemma find_distinct:
  assumes "distinct (map key xs)" "x \<in> set xs" "key x = k"
  shows "find (\<lambda>y. key y = k) xs = Some x"
  using assms
proof (induction xs)
  case Nil
  then show ?case by simp
next
  case (Cons y ys)
  then show ?case by (cases "y = x") (auto simp add: image_iff)
qed

text \<open>In a forest whose ids are a key, \<open>locate\<close> finds every location by the id
  of its page.\<close>

lemma locate_complete:
  assumes "distinct (map page_id (preorders ts))" "l \<in> set (locs anc ls ts)"
    "page_id (node_of l) = Some i"
  shows "locate i anc ls ts = Some l"
proof -
  have "distinct (map (\<lambda>l. page_id (node_of l)) (locs anc ls ts))"
    using assms(1) unfolding locs_nodes [of anc ls ts, symmetric] by (simp add: comp_def)
  from find_distinct [OF this assms(2), of "Some i"] assms(3) show ?thesis
    by (simp add: locate_find)
qed

lemma locate_sound:
  assumes "locate i anc ls ts = Some l"
  shows "l \<in> set (locs anc ls ts) \<and> page_id (node_of l) = Some i"
  using assms unfolding locate_find by (auto simp add: find_Some_iff)

text \<open>The locations of a forest are closed under the moves to a child, to the
  next sibling and to the parent.\<close>

lemma locs_top: "(anc, rev xs @ ls, t, ys) \<in> set (locs anc ls (xs @ t # ys))"
proof (induction xs arbitrary: ls)
  case Nil
  then show ?case by (cases t) simp
next
  case (Cons x xs)
  from Cons [of "x # ls"] show ?case by (cases x) simp
qed

lemma locs_sub:
  "(anc, ls, Node p cs, rs) \<in> set (locs a l ts)
   \<Longrightarrow> set (locs (p # anc) [] cs) \<subseteq> set (locs a l ts)"
  by (induction a l ts rule: locs.induct) auto

lemma locs_next:
  "(anc, ls, t, r # rs) \<in> set (locs a l ts) \<Longrightarrow> (anc, t # ls, r, rs) \<in> set (locs a l ts)"
proof (induction a l ts rule: locs.induct)
  case (1 anc ls)
  then show ?case by simp
next
  case (2 a l p cs rs0)
  show ?case
  proof (cases "(anc, ls, t, r # rs) = (a, l, Node p cs, rs0)")
    case True
    then have "(anc, t # ls, r, rs) \<in> set (locs a (Node p cs # l) rs0)"
      by (cases r) auto
    then show ?thesis by simp
  next
    case False
    with 2 show ?thesis by auto
  qed
qed

lemma locs_child:
  assumes "(anc, ls, Node p (xs @ t # ys), rs) \<in> set (locs a l ts)"
  shows "(p # anc, rev xs, t, ys) \<in> set (locs a l ts)"
  using locs_sub [OF assms] locs_top [of "p # anc" xs "[]" t ys] by auto

lemma locs_inv:
  "(anc, ls, t, rs) \<in> set (locs a l ts) \<Longrightarrow>
     (anc = a \<and> (\<exists>xs. ls = rev xs @ l \<and> ts = xs @ t # rs))
   \<or> (\<exists>p anc' lp rp. anc = p # anc'
        \<and> (anc', lp, Node p (rev ls @ t # rs), rp) \<in> set (locs a l ts))"
proof (induction a l ts rule: locs.induct)
  case (1 anc ls)
  then show ?case by simp
next
  case (2 a l p cs rs0)
  from "2.prems" consider
      (here) "(anc, ls, t, rs) = (a, l, Node p cs, rs0)"
    | (below) "(anc, ls, t, rs) \<in> set (locs (p # a) [] cs)"
    | (after) "(anc, ls, t, rs) \<in> set (locs a (Node p cs # l) rs0)"
    by auto
  then show ?case
  proof cases
    case here
    then show ?thesis by simp
  next
    case below
    from "2.IH"(1) [OF below] show ?thesis
    proof
      assume "anc = p # a \<and> (\<exists>xs. ls = rev xs @ [] \<and> cs = xs @ t # rs)"
      then have "anc = p # a" "cs = rev ls @ t # rs" by auto
      then have "anc = p # a
        \<and> (a, l, Node p (rev ls @ t # rs), rs0) \<in> set (locs a l (Node p cs # rs0))"
        by simp
      then show ?thesis by blast
    next
      assume "\<exists>q anc' lp rp. anc = q # anc'
        \<and> (anc', lp, Node q (rev ls @ t # rs), rp) \<in> set (locs (p # a) [] cs)"
      then show ?thesis by auto
    qed
  next
    case after
    from "2.IH"(2) [OF after] show ?thesis
    proof
      assume "anc = a \<and> (\<exists>xs. ls = rev xs @ Node p cs # l \<and> rs0 = xs @ t # rs)"
      then obtain xs where "anc = a" "ls = rev xs @ Node p cs # l" "rs0 = xs @ t # rs"
        by blast
      then have "ls = rev (Node p cs # xs) @ l \<and> Node p cs # rs0 = (Node p cs # xs) @ t # rs"
        by simp
      with \<open>anc = a\<close> show ?thesis by blast
    next
      assume "\<exists>q anc' lp rp. anc = q # anc'
        \<and> (anc', lp, Node q (rev ls @ t # rs), rp) \<in> set (locs a (Node p cs # l) rs0)"
      then show ?thesis by auto
    qed
  qed
qed

lemma locs_parent:
  assumes "(p # anc, ls, t, rs) \<in> set (locs [] [] f)"
  shows "\<exists>lp rp. (anc, lp, Node p (rev ls @ t # rs), rp) \<in> set (locs [] [] f)"
  using locs_inv [OF assms] by auto

lemma locs_suffix:
  "(anc, ls, t, rs) \<in> set (locs a l ts) \<Longrightarrow> \<exists>xs. anc = xs @ a"
proof (induction a l ts rule: locs.induct)
  case (1 anc ls)
  then show ?case by simp
next
  case (2 a l p cs rs0)
  from "2.prems" consider
      (here) "(anc, ls, t, rs) = (a, l, Node p cs, rs0)"
    | (below) "(anc, ls, t, rs) \<in> set (locs (p # a) [] cs)"
    | (after) "(anc, ls, t, rs) \<in> set (locs a (Node p cs # l) rs0)"
    by auto
  then show ?case
  proof cases
    case here
    then show ?thesis by simp
  next
    case below
    from "2.IH"(1) [OF below] obtain xs where "anc = xs @ p # a" by blast
    then have "anc = (xs @ [p]) @ a" by simp
    then show ?thesis by blast
  next
    case after
    from "2.IH"(2) [OF after] show ?thesis .
  qed
qed

lemma consistent_placed:
  "consistent f \<Longrightarrow> l \<in> set (locs [] [] f) \<Longrightarrow> placed l"
  by (simp add: consistent_def list_all_iff)

lemma consistent_position:
  assumes "consistent f" "l \<in> set (locs [] [] f)"
  shows "position f (node_of l) = Some l"
proof -
  from consistent_placed [OF assms] obtain i where i: "page_id (node_of l) = Some i"
    by (auto simp add: placed_def node_of_def split: prod.splits)
  from assms(1) have "distinct (map page_id (preorders f))"
    by (simp add: consistent_def)
  from locate_complete [OF this assms(2) i] i show ?thesis
    by (simp add: position_def)
qed

lemma member_loc:
  assumes "self \<in> set (preorders f)"
  shows "\<exists>anc ls cs rs. (anc, ls, Node self cs, rs) \<in> set (locs [] [] f)"
proof -
  from assms have "self \<in> node_of ` set (locs [] [] f)"
    using locs_nodes [of "[]" "[]" f] by (metis set_map)
  then obtain anc ls t rs where "(anc, ls, t, rs) \<in> set (locs [] [] f)" "root t = self"
    by (auto simp add: node_of_def)
  then show ?thesis by (cases t) auto
qed

lemma parent_of_loc:
  assumes "consistent f" "(a # anc, ls, t, rs) \<in> set (locs [] [] f)"
  shows "\<exists>i. parent (root t) = Some i \<and> page_id a = Some i
     \<and> (\<exists>lp rp. locate i [] [] f = Some (anc, lp, Node a (rev ls @ t # rs), rp))"
proof -
  from locs_parent [OF assms(2)] obtain lp rp where
    la: "(anc, lp, Node a (rev ls @ t # rs), rp) \<in> set (locs [] [] f)" by blast
  from consistent_placed [OF assms(1) la] obtain i where i: "page_id a = Some i"
    by (auto simp add: placed_def)
  from consistent_placed [OF assms] i have "parent (root t) = Some i"
    by (simp add: placed_def)
  moreover from consistent_position [OF assms(1) la] i
  have "locate i [] [] f = Some (anc, lp, Node a (rev ls @ t # rs), rp)"
    by (simp add: position_def node_of_def)
  ultimately show ?thesis using i by blast
qed

lemma root_of_loc:
  assumes "consistent f" "(anc, ls, t, rs) \<in> set (locs [] [] f)"
  shows "get_root f (root t) = Some (if anc = [] then root t else last anc)"
  using consistent_position [OF assms] by (simp add: get_root_def node_of_def)

lemma preorders_append: "preorders (xs @ ys) = preorders xs @ preorders ys"
  by (induction xs) simp_all

lemma preorder_nonempty: "preorder t \<noteq> []"
  by (cases t) simp

lemma last_preorder_Node:
  "last (preorder (Node a (xs @ [t]))) = last (preorder t)"
  by (simp add: preorders_append preorder_nonempty)

subsection \<open>Previous of next\<close>

text \<open>The page before a page that is not a root and has a sibling before it is
  the last page of the subtree of that sibling.\<close>

lemma prev_after_subtree:
  assumes "consistent f" "(a # anc, Node p cs # ls, r, rs) \<in> set (locs [] [] f)"
  shows "get_prev_in_book f (root r) = Inr (Some (last (preorder (Node p cs))))"
proof -
  let ?l = "(a # anc, Node p cs # ls, r, rs)"
  have pos: "position f (root r) = Some ?l"
    using consistent_position [OF assms] by (simp add: node_of_def)
  from parent_of_loc [OF assms] have nonroot: "\<not> is_root_node (root r)"
    by (auto simp add: is_root_node_def)
  from locs_parent [OF assms(2)] obtain lp rp where
    "(anc, lp, Node a (rev (Node p cs # ls) @ r # rs), rp) \<in> set (locs [] [] f)" by blast
  then have "(anc, lp, Node a (rev ls @ Node p cs # r # rs), rp) \<in> set (locs [] [] f)"
    by simp
  from locs_child [OF this] have "(a # anc, rev (rev ls), Node p cs, r # rs) \<in> set (locs [] [] f)" .
  from consistent_position [OF assms(1) this]
  have posp: "position f p = Some (a # anc, ls, Node p cs, r # rs)"
    by (simp add: node_of_def)
  have dsc: "get_descendants f p = preorders cs"
    by (simp add: get_descendants_def posp)
  have sib: "get_previous_sibling f (root r) = Some p"
    by (simp add: get_previous_sibling_def pos)
  show ?thesis
  proof (cases "preorders cs = []")
    case True
    with nonroot sib dsc show ?thesis by (simp add: get_prev_in_book_def)
  next
    case False
    then have "preorders cs ! (length (preorders cs) - 1) = last (preorders cs)"
      by (simp add: last_conv_nth)
    with False nonroot sib dsc show ?thesis by (simp add: get_prev_in_book_def Let_def)
  qed
qed

text \<open>The walk up the ancestors: when it ends at the next sibling of an ancestor,
  the page before that sibling is the last page of the subtree left.\<close>

lemma prev_of_climb:
  assumes "consistent f"
  shows "(anc, ls, t, []) \<in> set (locs [] [] f)
    \<Longrightarrow> first_next_sibling f (butlast anc) = Some q
    \<Longrightarrow> get_prev_in_book f q = Inr (Some (last (preorder t)))"
proof (induction anc arbitrary: ls t)
  case Nil
  then show ?case by simp
next
  case (Cons a anc)
  from Cons.prems(2) obtain a' anc' where anc: "anc = a' # anc'"
    by (cases anc) auto
  from locs_parent [OF Cons.prems(1)] obtain lp rp where
    la: "(anc, lp, Node a (rev ls @ [t]), rp) \<in> set (locs [] [] f)" by blast
  from consistent_position [OF assms la]
  have pos: "position f a = Some (anc, lp, Node a (rev ls @ [t]), rp)"
    by (simp add: node_of_def)
  show ?case
  proof (cases rp)
    case Nil
    with pos have "get_next_sibling f a = None"
      by (simp add: get_next_sibling_def)
    with Cons.prems(2) anc have "first_next_sibling f (butlast anc) = Some q"
      by simp
    from Cons.IH [OF la [unfolded Nil] this] show ?thesis
      by (simp only: last_preorder_Node)
  next
    case (Cons r rs)
    with pos have "get_next_sibling f a = Some (root r)"
      by (simp add: get_next_sibling_def)
    with Cons.prems(2) anc have q: "q = root r" by simp
    from locs_next [OF la [unfolded Cons]]
    have "(a' # anc', Node a (rev ls @ [t]) # lp, r, rs) \<in> set (locs [] [] f)"
      by (simp add: anc)
    from prev_after_subtree [OF assms this] q show ?thesis
      by (simp only: last_preorder_Node)
  qed
qed

text \<open>
  In a consistent forest, when \<open>get_next_in_book\<close> of a page returns a page that
  is not a root, \<open>get_prev_in_book\<close> of that page returns the first page.
\<close>

lemma prev_next_in_book:
  assumes "consistent f" "self \<in> set (preorders f)"
    "get_next_in_book f self = Inr (Some q)" "\<not> is_root_node q"
  shows "get_prev_in_book f q = Inr (Some self)"
proof -
  from member_loc [OF assms(2)] obtain anc ls cs rs where
    l: "(anc, ls, Node self cs, rs) \<in> set (locs [] [] f)" by blast
  from consistent_position [OF assms(1) l]
  have pos: "position f self = Some (anc, ls, Node self cs, rs)"
    by (simp add: node_of_def)
  show ?thesis
  proof (cases cs)
    case (Cons c cs')
    with pos assms(3) have q: "q = root c"
      by (simp add: get_next_in_book_def get_children_def)
    from locs_child [of anc ls self "[]" c cs' rs] l Cons
    have lq: "(self # anc, [], c, cs') \<in> set (locs [] [] f)" by simp
    from consistent_position [OF assms(1) lq]
    have "get_previous_sibling f (root c) = None"
      by (simp add: get_previous_sibling_def node_of_def)
    moreover from parent_of_loc [OF assms(1) lq] l pos obtain i where
      "parent (root c) = Some i" "objects_get f i = Inr self"
      by (auto simp add: objects_get_def)
    ultimately show ?thesis
      using q by (simp add: get_prev_in_book_def is_root_node_def)
  next
    case Nil
    show ?thesis
    proof (cases rs)
      case (Cons r rs')
      with pos Nil assms(3) have q: "q = root r"
        by (simp add: get_next_in_book_def get_children_def get_next_sibling_def)
      from locs_next [OF l [unfolded Cons]] Nil
      have lq: "(anc, Node self [] # ls, r, rs') \<in> set (locs [] [] f)" by simp
      from consistent_placed [OF assms(1) lq] assms(4) q obtain a anc' where
        "anc = a # anc'"
        by (cases anc) (auto simp add: placed_def is_root_node_def)
      with prev_after_subtree [OF assms(1), of a anc' self "[]" ls r rs'] lq q
      show ?thesis by simp
    next
      case R: Nil
      from pos Nil R assms(3) have "anc \<noteq> []"
        by (auto simp add: get_next_in_book_def get_children_def get_next_sibling_def
            get_ancestors_def qs_slice_def)
      then have "qs_slice anc 0 (int (length anc) - 1) = Inr (butlast anc)"
        by (cases anc rule: rev_cases) (simp_all add: qs_slice_def nat_diff_distrib')
      with pos Nil R assms(3) have "first_next_sibling f (butlast anc) = Some q"
        by (simp add: get_next_in_book_def get_children_def get_next_sibling_def
            get_ancestors_def)
      from prev_of_climb [OF assms(1) l [unfolded R Nil] this] show ?thesis
        by simp
    qed
  qed
qed

lemma prev_next_in_book_eq:
  assumes "consistent f" "self \<in> set (preorders f)"
    "get_next_in_book f self = Inr (Some q)" "get_prev_in_book f q = Inr (Some r)"
  shows "r = self"
proof (cases "is_root_node q")
  case True
  with assms(4) show ?thesis by (simp add: get_prev_in_book_def)
next
  case False
  from prev_next_in_book [OF assms(1-3) False] assms(4) show ?thesis by simp
qed

subsection \<open>Staying in the tree\<close>

lemma root_of_descendant:
  assumes "consistent f" "(anc, ls, Node p cs, rs) \<in> set (locs [] [] f)"
    "d \<in> set (preorders cs)"
  shows "get_root f d = Some (last (p # anc))"
proof -
  from assms(3) have "d \<in> node_of ` set (locs (p # anc) [] cs)"
    using locs_nodes [of "p # anc" "[]" cs] by (metis set_map)
  then obtain anc' ls' t' rs' where
    l: "(anc', ls', t', rs') \<in> set (locs (p # anc) [] cs)" and d: "root t' = d"
    by (auto simp add: node_of_def)
  from locs_suffix [OF l] obtain xs where xs: "anc' = xs @ p # anc" by blast
  from l locs_sub [OF assms(2)] have "(anc', ls', t', rs') \<in> set (locs [] [] f)" by blast
  from root_of_loc [OF assms(1) this] xs d show ?thesis by simp
qed

text \<open>\<open>get_prev_in_book\<close> never leaves the tree of the page.\<close>

lemma prev_in_book_same_tree:
  assumes "consistent f" "self \<in> set (preorders f)" "get_prev_in_book f self = Inr (Some r)"
  shows "get_root f r = get_root f self"
proof -
  from member_loc [OF assms(2)] obtain anc ls cs rs where
    l: "(anc, ls, Node self cs, rs) \<in> set (locs [] [] f)" by blast
  from consistent_position [OF assms(1) l]
  have pos: "position f self = Some (anc, ls, Node self cs, rs)"
    by (simp add: node_of_def)
  from assms(3) have nonroot: "parent self \<noteq> None"
    by (auto simp add: get_prev_in_book_def is_root_node_def split: if_splits)
  with consistent_placed [OF assms(1) l] obtain a anc' where anc: "anc = a # anc'"
    by (cases anc) (auto simp add: placed_def)
  from root_of_loc [OF assms(1) l] anc have self: "get_root f self = Some (last (a # anc'))"
    by simp
  show ?thesis
  proof (cases ls)
    case Nil
    from parent_of_loc [OF assms(1) l [unfolded anc]] obtain i lp rp where
      i: "parent self = Some i"
        "locate i [] [] f = Some (anc', lp, Node a (rev ls @ Node self cs # rs), rp)"
      by auto
    with Nil pos nonroot assms(3) have "r = a"
      by (simp add: get_prev_in_book_def is_root_node_def get_previous_sibling_def
          objects_get_def)
    moreover from locate_sound [OF i(2)]
    have "(anc', lp, Node a (rev ls @ Node self cs # rs), rp) \<in> set (locs [] [] f)" ..
    from root_of_loc [OF assms(1) this]
    have "get_root f a = Some (last (a # anc'))" by simp
    ultimately show ?thesis using self by simp
  next
    case (Cons s ls')
    obtain p pcs where s: "s = Node p pcs" by (cases s) auto
    from locs_parent [OF l [unfolded anc]] obtain lp rp where
      "(anc', lp, Node a (rev ls @ Node self cs # rs), rp) \<in> set (locs [] [] f)" by blast
    then have "(anc', lp, Node a (rev ls' @ Node p pcs # Node self cs # rs), rp)
        \<in> set (locs [] [] f)"
      by (simp add: Cons s)
    from locs_child [OF this]
    have lp: "(a # anc', ls', Node p pcs, Node self cs # rs) \<in> set (locs [] [] f)" by simp
    from consistent_position [OF assms(1) lp]
    have dsc: "get_descendants f p = preorders pcs"
      by (simp add: get_descendants_def node_of_def)
    from pos Cons s have sib: "get_previous_sibling f self = Some p"
      by (simp add: get_previous_sibling_def)
    show ?thesis
    proof (cases "preorders pcs = []")
      case True
      with nonroot sib dsc assms(3) have "r = p"
        by (simp add: get_prev_in_book_def is_root_node_def)
      with root_of_loc [OF assms(1) lp] self show ?thesis by simp
    next
      case False
      with nonroot sib dsc assms(3) have "r = last (preorders pcs)"
        by (simp add: get_prev_in_book_def is_root_node_def Let_def last_conv_nth)
      with False have "r \<in> set (preorders pcs)" by simp
      from root_of_descendant [OF assms(1) lp this] self show ?thesis by simp
    qed
  qed
qed

lemma root_of_climb:
  assumes "consistent f"
  shows "(anc, ls, t, rs) \<in> set (locs [] [] f)
    \<Longrightarrow> first_next_sibling f (butlast anc) = Some q
    \<Longrightarrow> get_root f q = Some (last anc)"
proof (induction anc arbitrary: ls t rs)
  case Nil
  then show ?case by simp
next
  case (Cons a anc)
  from Cons.prems(2) obtain a' anc' where anc: "anc = a' # anc'"
    by (cases anc) auto
  from locs_parent [OF Cons.prems(1)] obtain lp rp where
    la: "(anc, lp, Node a (rev ls @ t # rs), rp) \<in> set (locs [] [] f)" by blast
  from consistent_position [OF assms la]
  have pos: "position f a = Some (anc, lp, Node a (rev ls @ t # rs), rp)"
    by (simp add: node_of_def)
  show ?case
  proof (cases rp)
    case Nil
    with pos have "get_next_sibling f a = None"
      by (simp add: get_next_sibling_def)
    with Cons.prems(2) anc have "first_next_sibling f (butlast anc) = Some q"
      by simp
    from Cons.IH [OF la this] anc show ?thesis by simp
  next
    case (Cons r rs')
    with pos have "get_next_sibling f a = Some (root r)"
      by (simp add: get_next_sibling_def)
    with Cons.prems(2) anc have q: "q = root r" by simp
    from locs_next [OF la [unfolded Cons]] root_of_loc [OF assms, of anc _ r rs'] q anc
    show ?thesis by simp
  qed
qed

text \<open>\<open>get_next_in_book\<close> stays in the tree of a page that has a parent or has
  children: the only way out is the next sibling of a root without children.\<close>

lemma next_in_book_same_tree:
  assumes "consistent f" "self \<in> set (preorders f)" "get_next_in_book f self = Inr (Some q)"
    "\<not> is_root_node self \<or> get_children f self \<noteq> []"
  shows "get_root f q = get_root f self"
proof -
  from member_loc [OF assms(2)] obtain anc ls cs rs where
    l: "(anc, ls, Node self cs, rs) \<in> set (locs [] [] f)" by blast
  from consistent_position [OF assms(1) l]
  have pos: "position f self = Some (anc, ls, Node self cs, rs)"
    by (simp add: node_of_def)
  from root_of_loc [OF assms(1) l]
  have self: "get_root f self = Some (if anc = [] then self else last anc)" by simp
  show ?thesis
  proof (cases cs)
    case (Cons c cs')
    with pos assms(3) have q: "q = root c"
      by (simp add: get_next_in_book_def get_children_def)
    from locs_child [of anc ls self "[]" c cs' rs] l Cons
    have "(self # anc, [], c, cs') \<in> set (locs [] [] f)" by simp
    from root_of_loc [OF assms(1) this] q self show ?thesis by simp
  next
    case Nil
    with pos assms(4) have "parent self \<noteq> None"
      by (simp add: get_children_def is_root_node_def)
    with consistent_placed [OF assms(1) l] have anc: "anc \<noteq> []"
      by (auto simp add: placed_def)
    show ?thesis
    proof (cases rs)
      case (Cons r rs')
      with pos Nil assms(3) have q: "q = root r"
        by (simp add: get_next_in_book_def get_children_def get_next_sibling_def)
      from locs_next [OF l [unfolded Cons]] root_of_loc [OF assms(1), of anc _ r rs'] q anc self
      show ?thesis by simp
    next
      case R: Nil
      from anc have "qs_slice anc 0 (int (length anc) - 1) = Inr (butlast anc)"
        by (cases anc rule: rev_cases) (simp_all add: qs_slice_def nat_diff_distrib')
      with pos Nil R assms(3) have "first_next_sibling f (butlast anc) = Some q"
        by (simp add: get_next_in_book_def get_children_def get_next_sibling_def
            get_ancestors_def)
      from root_of_climb [OF assms(1) l this] anc self show ?thesis by simp
    qed
  qed
qed

text \<open>In the scenario, B follows A, A precedes B, and nothing follows B.\<close>

lemma book_example:
  "get_next_in_book site page_A = Inr (Some page_B)
   \<and> get_prev_in_book site page_B = Inr (Some page_A)
   \<and> get_next_in_book site page_B = Inr None"
proof -
  have A: "position site page_A = Some ([page_R], [], Node page_A [Node page_B []], [])"
    and B: "position site page_B = Some ([page_A, page_R], [], Node page_B [], [])"
    and R: "position site page_R = Some ([], [], Node page_R [Node page_A [Node page_B []]], [])"
    by (simp_all add: position_def site_def page_fields)
  have "qs_slice [page_A, page_R] 0 1 = Inr [page_A]"
    by (simp add: qs_slice_def)
  with A B R show ?thesis
    by (simp add: get_next_in_book_def get_prev_in_book_def get_children_def
        get_next_sibling_def get_previous_sibling_def get_ancestors_def is_root_node_def
        objects_get_def page_fields position_def [of site page_A, simplified page_fields, simplified])
qed

end
